theory Spec2Isabelle
  imports Complex_Main "HOL-Library.Multiset"
begin

section \<open>Data model\<close>

text \<open>
  The exceptions the trainer can raise. \<open>InvalidSplit\<close> is the class
  \<open>Feature.InvalidSplit\<close>; the others are the Python built-ins.
\<close>

datatype error = ZeroDivisionError | AssertionError | InvalidSplit | KeyError | TypeError

type_synonym label = string

text \<open>
  Modelled from the spec: the class \<open>CommentEntry\<close> (module \<open>comment\<close>) is not among the
  sources. An entity exposes \<open>get(attributeName) -> value-or-undefined\<close> and a label:
  \<open>e[attr]\<close> yields the attribute or \<open>None\<close>, \<open>e.key\<close> the label. An entity is an
  object: its identity is \<open>eid\<close>, and two objects with the same content are different
  entities (membership in a \<open>set()\<close> is by identity). The string-valued attributes
  read from the input and the integer-valued derived attributes (\<open>deltaLine\<close>, ...)
  are kept apart: discrete and membership features read the former, quantitative
  features the latter.
\<close>

record entity =
  eid :: nat
  key :: label
  sattrs :: "(string \<times> string) list"
  nattrs :: "(string \<times> int) list"

section \<open>Entropy and majority label\<close>

text \<open>
  \<open>calcetp(values)\<close>: \<open>n = sum(values)\<close>, then
  \<open>sum(v*log2(n/v) for v in values) / n\<close>. The generator is consumed first, so a zero
  count fails in \<open>n/v\<close>; an empty collection fails in the final \<open>0/n\<close> with \<open>n = 0\<close>.
  Python floats are idealised as reals.
\<close>

definition calcetp :: "nat list \<Rightarrow> error + real" where
  "calcetp vals =
     (let n = sum_list vals in
      if 0 \<in> set vals then Inl ZeroDivisionError
      else if n = 0 then Inl ZeroDivisionError
      else Inr (sum_list (map (\<lambda>v. real v * log 2 (real n / real v)) vals) / real n))"

text \<open>\<open>countkeys\<close>: a dictionary label \<open>\<rightarrow>\<close> count, kept in insertion order.\<close>

fun inc_key :: "label \<Rightarrow> (label \<times> nat) list \<Rightarrow> (label \<times> nat) list" where
  "inc_key k [] = [(k, 1)]"
| "inc_key k ((k', c) # d) = (if k = k' then (k', c + 1) # d else (k', c) # inc_key k d)"

definition countkeys :: "entity list \<Rightarrow> (label \<times> nat) list" where
  "countkeys ents = foldl (\<lambda>d e. inc_key (key e) d) [] ents"

text \<open>\<open>bestkey\<close>: the first key with the largest count; the assertion fails on an empty dictionary.\<close>

fun bestkey_loop :: "(label \<times> nat) list \<Rightarrow> label option \<Rightarrow> nat \<Rightarrow> label option" where
  "bestkey_loop [] maxkey maxv = maxkey"
| "bestkey_loop ((k, v) # keys) maxkey maxv =
     (if maxkey = None \<or> maxv < v then bestkey_loop keys (Some k) v
      else bestkey_loop keys maxkey maxv)"

definition bestkey :: "(label \<times> nat) list \<Rightarrow> error + label" where
  "bestkey keys = (case bestkey_loop keys None 0 of None \<Rightarrow> Inl AssertionError | Some k \<Rightarrow> Inr k)"

definition entetp :: "entity list \<Rightarrow> error + real" where
  "entetp ents = calcetp (map snd (countkeys ents))"

section \<open>Features\<close>

text \<open>
  The split argument of a branch (\<open>None\<close>, a token, or a threshold) and the value that
  selects a child (\<open>None\<close> or a string for discrete features, a boolean for membership
  features, one of \<open>'lt'\<close>, \<open>'ge'\<close>, \<open>'un'\<close> for quantitative ones).
\<close>

datatype arg = ANone | AStr string | AInt int

datatype bval = BNone | BStr string | BBool bool

datatype feature =
    DiscreteFeature string
  | DiscreteFeatureOne string nat
  | MembershipFeature string
  | MembershipFeatureOne string nat
  | QuantitativeFeature string

text \<open>\<open>'%d' % n\<close> for a non-negative \<open>n\<close>.\<close>

fun digits :: "nat \<Rightarrow> string" where
  "digits n =
     (if n < 10 then [char_of (48 + n)]
      else digits (n div 10) @ [char_of (48 + n mod 10)])"

declare digits.simps [simp del]

fun feature_name :: "feature \<Rightarrow> string" where
  "feature_name (DiscreteFeature attr) = ''DF:'' @ attr"
| "feature_name (DiscreteFeatureOne attr index) = ''DF'' @ digits index @ '':'' @ attr"
| "feature_name (MembershipFeature attr) = ''MF:'' @ attr"
| "feature_name (MembershipFeatureOne attr nmems) = ''MF'' @ digits nmems @ '':'' @ attr"
| "feature_name (QuantitativeFeature attr) = ''QF:'' @ attr"

text \<open>\<open>v.split(',')\<close>: always at least one token.\<close>

fun split_comma :: "string \<Rightarrow> string list" where
  "split_comma [] = [[]]"
| "split_comma (c # cs) =
     (if c = CHR '','' then [] # split_comma cs
      else (case split_comma cs of [] \<Rightarrow> [[c]] | t # ts \<Rightarrow> (c # t) # ts))"

subsection \<open>The \<open>get\<close> methods\<close>

definition DiscreteFeature_get :: "string \<Rightarrow> entity \<Rightarrow> string option" where
  "DiscreteFeature_get attr e = map_of (sattrs e) attr"

definition DiscreteFeatureOne_get :: "string \<Rightarrow> nat \<Rightarrow> entity \<Rightarrow> string option" where
  "DiscreteFeatureOne_get attr index e =
     (case map_of (sattrs e) attr of
        None \<Rightarrow> None
      | Some v \<Rightarrow> (let f = split_comma v in if length f \<le> index then None else Some (f ! index)))"

definition MembershipFeature_get :: "string \<Rightarrow> entity \<Rightarrow> string list" where
  "MembershipFeature_get attr e =
     (case map_of (sattrs e) attr of None \<Rightarrow> [] | Some v \<Rightarrow> split_comma v)"

definition MembershipFeatureOne_get :: "string \<Rightarrow> nat \<Rightarrow> entity \<Rightarrow> string list" where
  "MembershipFeatureOne_get attr nmems e =
     (case map_of (sattrs e) attr of None \<Rightarrow> [] | Some v \<Rightarrow> take nmems (split_comma v))"

definition QuantitativeFeature_get :: "string \<Rightarrow> entity \<Rightarrow> int option" where
  "QuantitativeFeature_get attr e = map_of (nattrs e) attr"

subsection \<open>\<open>DiscreteFeature.split\<close>\<close>

fun bval_of :: "string option \<Rightarrow> bval" where
  "bval_of None = BNone"
| "bval_of (Some s) = BStr s"

text \<open>\<open>if v in d: d[v].append(e) else: d[v] = [e]\<close>, on a dictionary kept in insertion order.\<close>

fun add_group :: "'k \<Rightarrow> entity \<Rightarrow> ('k \<times> entity list) list \<Rightarrow> ('k \<times> entity list) list" where
  "add_group v e [] = [(v, [e])]"
| "add_group v e ((k, es) # d) =
     (if v = k then (k, es @ [e]) # d else (k, es) # add_group v e d)"

text \<open>\<open>sum(len(es) * entetp(es) for es in ...)\<close>\<close>

fun sum_etp :: "entity list list \<Rightarrow> error + real" where
  "sum_etp [] = Inr 0"
| "sum_etp (es # ess) =
     (case entetp es of
        Inl x \<Rightarrow> Inl x
      | Inr h \<Rightarrow> (case sum_etp ess of Inl x \<Rightarrow> Inl x | Inr s \<Rightarrow> Inr (real (length es) * h + s)))"

type_synonym splitres = "real \<times> arg \<times> (bval \<times> entity list) list"

definition DiscreteFeature_split :: "(entity \<Rightarrow> string option) \<Rightarrow> entity list \<Rightarrow> error + splitres" where
  "DiscreteFeature_split get ents =
     (if \<not> 2 \<le> length ents then Inl AssertionError
      else let d = foldl (\<lambda>d e. add_group (get e) e d) [] ents in
        if length d < 2 then Inl InvalidSplit
        else (case sum_etp (map snd d) of
                Inl x \<Rightarrow> Inl x
              | Inr s \<Rightarrow> Inr (s / real (length ents), ANone, map (\<lambda>(v, es). (bval_of v, es)) d)))"

subsection \<open>\<open>MembershipFeature.split\<close>\<close>

text \<open>
  \<open>d[v]\<close> is a \<open>set()\<close> of entities: here the list of its distinct elements. The order in
  which Python iterates a set depends on the hashes of its elements, that is on the
  objects' addresses; it is a parameter \<open>ord\<close> of the model, giving each entity its
  position, and \<open>set_list ord s\<close> is the set's elements as an iteration yields them.
\<close>

type_synonym setorder = "entity \<Rightarrow> nat"

definition set_add :: "entity \<Rightarrow> entity list \<Rightarrow> entity list" where
  "set_add e s = (if e \<in> set s then s else s @ [e])"

definition set_list :: "setorder \<Rightarrow> entity list \<Rightarrow> entity list" where
  "set_list ord s = sort_key ord s"

fun add_member :: "string \<Rightarrow> entity \<Rightarrow> (string \<times> entity list) list \<Rightarrow> (string \<times> entity list) list" where
  "add_member v e [] = [(v, [e])]"
| "add_member v e ((k, es) # d) =
     (if v = k then (k, set_add e es) # d else (k, es) # add_member v e d)"

definition members_dict :: "(entity \<Rightarrow> string list) \<Rightarrow> entity list \<Rightarrow> (string \<times> entity list) list" where
  "members_dict get ents = foldl (\<lambda>d e. foldl (\<lambda>d v. add_member v e d) d (get e)) [] ents"

text \<open>The loop over \<open>d.items()\<close>; the state is \<open>(minsplit, minetp)\<close>, both \<open>None\<close> at first.\<close>

fun mf_scan :: "setorder \<Rightarrow> entity list \<Rightarrow> (string \<times> entity list) list \<Rightarrow>
    ((string \<times> entity list) \<times> real) option \<Rightarrow> error + ((string \<times> entity list) \<times> real) option" where
  "mf_scan ord ents [] st = Inr st"
| "mf_scan ord ents ((v, es) # d) st =
     (let nes = filter (\<lambda>e. e \<notin> set es) ents in
      if nes = [] then mf_scan ord ents d st
      else (case entetp (set_list ord es) of
              Inl x \<Rightarrow> Inl x
            | Inr h1 \<Rightarrow>
               (case entetp nes of
                  Inl x \<Rightarrow> Inl x
                | Inr h2 \<Rightarrow>
                    (let avgetp = (real (length es) * h1 + real (length nes) * h2) / real (length ents) in
                     if (case st of None \<Rightarrow> True | Some (_, minetp) \<Rightarrow> avgetp < minetp)
                     then mf_scan ord ents d (Some ((v, nes), avgetp))
                     else mf_scan ord ents d st))))"

definition MembershipFeature_split :: "setorder \<Rightarrow> (entity \<Rightarrow> string list) \<Rightarrow> entity list \<Rightarrow> error + splitres" where
  "MembershipFeature_split ord get ents =
     (if \<not> 2 \<le> length ents then Inl AssertionError
      else let d = members_dict get ents in
        if length d < 2 then Inl InvalidSplit
        else (case mf_scan ord ents d None of
                Inl x \<Rightarrow> Inl x
              | Inr None \<Rightarrow> Inl InvalidSplit
              | Inr (Some ((a, nes), minetp)) \<Rightarrow>
                  (case map_of d a of
                     None \<Rightarrow> Inl KeyError
                   | Some es \<Rightarrow> Inr (minetp, AStr a, [(BBool True, set_list ord es), (BBool False, nes)]))))"

subsection \<open>\<open>QuantitativeFeature.split\<close>\<close>

text \<open>The loop over \<open>range(1, n)\<close>; the state is \<open>v0\<close> and \<open>(minsplit, minetp)\<close>.\<close>

fun qf_scan :: "entity list \<Rightarrow> int list \<Rightarrow> nat list \<Rightarrow> int \<Rightarrow> (nat \<times> real) option \<Rightarrow>
    error + (nat \<times> real) option" where
  "qf_scan es vs [] v0 st = Inr st"
| "qf_scan es vs (i # is) v0 st =
     (let v1 = vs ! i in
      if v0 = v1 then qf_scan es vs is v0 st
      else (case entetp (take i es) of
              Inl x \<Rightarrow> Inl x
            | Inr h1 \<Rightarrow>
               (case entetp (drop i es) of
                  Inl x \<Rightarrow> Inl x
                | Inr h2 \<Rightarrow>
                    (let avgetp = (real i * h1 + real (length es - i) * h2) / real (length es) in
                     if (case st of None \<Rightarrow> True | Some (_, minetp) \<Rightarrow> avgetp < minetp)
                     then qf_scan es vs is v1 (Some (i, avgetp))
                     else qf_scan es vs is v1 st))))"

definition QuantitativeFeature_split :: "(entity \<Rightarrow> int option) \<Rightarrow> entity list \<Rightarrow> error + splitres" where
  "QuantitativeFeature_split get ents =
     (if \<not> 2 \<le> length ents then Inl AssertionError
      else let pairs = concat (map (\<lambda>e. case get e of None \<Rightarrow> [] | Some v \<Rightarrow> [(e, v)]) ents);
               undefs = filter (\<lambda>e. get e = None) ents in
        if pairs = [] then Inl InvalidSplit
        else let sorted_pairs = sort_key snd pairs;
                 es = map fst sorted_pairs;
                 vs = map snd sorted_pairs;
                 n = length sorted_pairs in
          (case qf_scan es vs [1..<n] (vs ! 0) None of
             Inl x \<Rightarrow> Inl x
           | Inr None \<Rightarrow> Inl InvalidSplit
           | Inr (Some (minsplit, minetp)) \<Rightarrow>
               Inr (minetp, AInt (vs ! minsplit),
                    [(BStr ''lt'', take minsplit es), (BStr ''ge'', drop minsplit es)]
                    @ (if undefs \<noteq> [] then [(BStr ''un'', undefs)] else []))))"

subsection \<open>Dispatch on the feature class\<close>

fun split :: "setorder \<Rightarrow> feature \<Rightarrow> entity list \<Rightarrow> error + splitres" where
  "split ord (DiscreteFeature attr) ents = DiscreteFeature_split (DiscreteFeature_get attr) ents"
| "split ord (DiscreteFeatureOne attr index) ents =
     DiscreteFeature_split (DiscreteFeatureOne_get attr index) ents"
| "split ord (MembershipFeature attr) ents =
     MembershipFeature_split ord (MembershipFeature_get attr) ents"
| "split ord (MembershipFeatureOne attr nmems) ents =
     MembershipFeature_split ord (MembershipFeatureOne_get attr nmems) ents"
| "split ord (QuantitativeFeature attr) ents =
     QuantitativeFeature_split (QuantitativeFeature_get attr) ents"

text \<open>
  \<open>ident\<close>. The membership test \<open>arg in self.get(e)\<close> is false for an argument that is
  not a string; the comparison \<open>v < arg\<close> of an integer with \<open>None\<close> or a string raises
  \<open>TypeError\<close>.
\<close>

definition MembershipFeature_ident :: "(entity \<Rightarrow> string list) \<Rightarrow> arg \<Rightarrow> entity \<Rightarrow> bval" where
  "MembershipFeature_ident get a e =
     (case a of AStr s \<Rightarrow> BBool (s \<in> set (get e)) | _ \<Rightarrow> BBool False)"

definition QuantitativeFeature_ident :: "(entity \<Rightarrow> int option) \<Rightarrow> arg \<Rightarrow> entity \<Rightarrow> error + bval" where
  "QuantitativeFeature_ident get a e =
     (case get e of
        None \<Rightarrow> Inr (BStr ''un'')
      | Some v \<Rightarrow>
          (case a of
             AInt t \<Rightarrow> if v < t then Inr (BStr ''lt'') else Inr (BStr ''ge'')
           | _ \<Rightarrow> Inl TypeError))"

fun ident :: "feature \<Rightarrow> arg \<Rightarrow> entity \<Rightarrow> error + bval" where
  "ident (DiscreteFeature attr) a e = Inr (bval_of (DiscreteFeature_get attr e))"
| "ident (DiscreteFeatureOne attr index) a e = Inr (bval_of (DiscreteFeatureOne_get attr index e))"
| "ident (MembershipFeature attr) a e = Inr (MembershipFeature_ident (MembershipFeature_get attr) a e)"
| "ident (MembershipFeatureOne attr nmems) a e =
     Inr (MembershipFeature_ident (MembershipFeatureOne_get attr nmems) a e)"
| "ident (QuantitativeFeature attr) a e = QuantitativeFeature_ident (QuantitativeFeature_get attr) a e"

section \<open>Trees\<close>

datatype tree =
    TreeBranch feature arg label "(bval \<times> tree) list"
  | TreeLeaf label

text \<open>\<open>d[k] = v\<close> on a dictionary kept in insertion order: an existing key keeps its place.\<close>

fun dict_set :: "('k \<times> 'v) list \<Rightarrow> 'k \<Rightarrow> 'v \<Rightarrow> ('k \<times> 'v) list" where
  "dict_set [] k v = [(k, v)]"
| "dict_set ((k', v') # d) k v = (if k = k' then (k', v) # d else (k', v') # dict_set d k v)"

lemma map_of_size [termination_simp]:
  "map_of ch v = Some b \<Longrightarrow> size b < Suc (size_list (\<lambda>x. Suc (size (snd x))) ch)"
  by (induction ch) (auto split: if_splits)

text \<open>
  \<open>TreeBranch.test\<close> and \<open>TreeLeaf.test\<close>. \<open>ident\<close> is called outside the \<open>try\<close>;
  the lookup \<open>self.children[v]\<close> and the recursive call are inside it, so a \<open>KeyError\<close>
  of either yields the default.
\<close>

fun test :: "tree \<Rightarrow> entity \<Rightarrow> error + label" where
  "test (TreeLeaf k) e = Inr k"
| "test (TreeBranch feature a dflt children) e =
     (case ident feature a e of
        Inl x \<Rightarrow> Inl x
      | Inr v \<Rightarrow>
          (case map_of children v of
             None \<Rightarrow> Inr dflt
           | Some branch \<Rightarrow>
               (case test branch e of
                  Inl KeyError \<Rightarrow> Inr dflt
                | r \<Rightarrow> r)))"

text \<open>
  The exported structure: a tuple \<open>(name, arg, default, [(v, child), ...])\<close> for a branch,
  the bare label for a leaf.
\<close>

datatype data = Scalar label | Tuple string arg label "(bval \<times> data) list"

fun export_tree :: "tree \<Rightarrow> data" where
  "export_tree (TreeBranch feature a dflt children) =
     Tuple (feature_name feature) a dflt (map (\<lambda>(v, branch). (v, export_tree branch)) children)"
| "export_tree (TreeLeaf k) = Scalar k"

section \<open>TreeBuilder\<close>

record builder =
  features :: "(string \<times> feature) list"
  minkeys :: int
  minetp :: real

definition addfeat :: "builder \<Rightarrow> feature \<Rightarrow> builder" where
  "addfeat b feat = b\<lparr>features := dict_set (features b) (feature_name feat) feat\<rparr>"

text \<open>
  \<open>import_tree\<close>: the dictionary comprehension imports the children first, then the
  feature is looked up by name (\<open>KeyError\<close> when it is not registered).
\<close>

fun import_tree :: "builder \<Rightarrow> data \<Rightarrow> error + tree"
and import_children :: "builder \<Rightarrow> (bval \<times> data) list \<Rightarrow> (bval \<times> tree) list \<Rightarrow>
      error + (bval \<times> tree) list" where
  "import_tree b (Tuple name a dflt children) =
     (case import_children b children [] of
        Inl x \<Rightarrow> Inl x
      | Inr ch \<Rightarrow>
          (case map_of (features b) name of
             None \<Rightarrow> Inl KeyError
           | Some feat \<Rightarrow> Inr (TreeBranch feat a dflt ch)))"
| "import_tree b (Scalar k) = Inr (TreeLeaf k)"
| "import_children b [] ch = Inr ch"
| "import_children b ((v, branch) # rest) ch =
     (case import_tree b branch of
        Inl x \<Rightarrow> Inl x
      | Inr t \<Rightarrow> import_children b rest (dict_set ch v t))"

text \<open>
  The loop of \<open>build\<close> over \<open>self.features.values()\<close>: \<open>InvalidSplit\<close> is caught, any
  other exception propagates; the state is \<open>(minbranch, minetp)\<close>.
\<close>

type_synonym branchsel = "(feature \<times> arg \<times> (bval \<times> entity list) list) \<times> real"

fun select :: "setorder \<Rightarrow> feature list \<Rightarrow> entity list \<Rightarrow> branchsel option \<Rightarrow>
    error + branchsel option" where
  "select ord [] ents st = Inr st"
| "select ord (feat # feats) ents st =
     (case split ord feat ents of
        Inl InvalidSplit \<Rightarrow> select ord feats ents st
      | Inl x \<Rightarrow> Inl x
      | Inr (etp, a, sp) \<Rightarrow>
          if (case st of None \<Rightarrow> True | Some (_, m) \<Rightarrow> etp < m)
          then select ord feats ents (Some ((feat, a, sp), etp))
          else select ord feats ents st)"

text \<open>\<open>build\<close>, and its loop over the partitions of the winning split.\<close>

function build :: "setorder \<Rightarrow> builder \<Rightarrow> entity list \<Rightarrow> error + tree option"
and build_children :: "setorder \<Rightarrow> builder \<Rightarrow> (bval \<times> entity list) list \<Rightarrow> (bval \<times> tree) list \<Rightarrow>
      error + (bval \<times> tree) list" where
  "build ord b ents =
     (let keys = countkeys ents in
      case calcetp (map snd keys) of
        Inl x \<Rightarrow> Inl x
      | Inr etp \<Rightarrow>
          if etp < minetp b then Inr None
          else if int (length ents) < minkeys b then Inr None
          else (case select ord (map snd (features b)) ents None of
                  Inl x \<Rightarrow> Inl x
                | Inr None \<Rightarrow> Inr None
                | Inr (Some ((feat, a, sp), _)) \<Rightarrow>
                    (case bestkey keys of
                       Inl x \<Rightarrow> Inl x
                     | Inr dflt \<Rightarrow>
                         (case build_children ord b sp [] of
                            Inl x \<Rightarrow> Inl x
                          | Inr children \<Rightarrow> Inr (Some (TreeBranch feat a dflt children))))))"
| "build_children ord b [] children = Inr children"
| "build_children ord b ((v, es) # sp) children =
     (case build ord b es of
        Inl x \<Rightarrow> Inl x
      | Inr None \<Rightarrow>
          (case bestkey (countkeys es) of
             Inl x \<Rightarrow> Inl x
           | Inr best \<Rightarrow> build_children ord b sp (dict_set children v (TreeLeaf best)))
      | Inr (Some branch) \<Rightarrow> build_children ord b sp (dict_set children v branch))"
  by pat_completeness auto

section \<open>Scoring\<close>

text \<open>
  The testing branch of \<open>main\<close>: the loop filling \<open>correct\<close>, \<open>keys\<close> and \<open>resp\<close>, then
  one line per entry of \<open>correct\<close> with precision, recall and F.
\<close>

record counts =
  correct :: "(label \<times> nat) list"
  actual :: "(label \<times> nat) list"
  resp :: "(label \<times> nat) list"

fun score_loop :: "tree \<Rightarrow> entity list \<Rightarrow> counts \<Rightarrow> error + counts" where
  "score_loop t [] c = Inr c"
| "score_loop t (e # ents) c =
     (let c1 = c\<lparr>actual := inc_key (key e) (actual c)\<rparr> in
      case test t e of
        Inl x \<Rightarrow> Inl x
      | Inr k \<Rightarrow>
          (let c2 = c1\<lparr>resp := inc_key k (resp c1)\<rparr> in
           if key e = k then score_loop t ents (c2\<lparr>correct := inc_key k (correct c2)\<rparr>)
           else score_loop t ents c2))"

definition py_div :: "real \<Rightarrow> real \<Rightarrow> error + real" where
  "py_div x y = (if y = 0 then Inl ZeroDivisionError else Inr (x / y))"

definition dict_get :: "('k \<times> 'v) list \<Rightarrow> 'k \<Rightarrow> error + 'v" where
  "dict_get d k = (case map_of d k of None \<Rightarrow> Inl KeyError | Some v \<Rightarrow> Inr v)"

definition report_line :: "counts \<Rightarrow> label \<times> nat \<Rightarrow> error + (label \<times> real \<times> real \<times> real)" where
  "report_line c kv =
     (case kv of (k, v) \<Rightarrow>
      case dict_get (resp c) k of Inl x \<Rightarrow> Inl x | Inr nresp \<Rightarrow>
      case py_div (real v) (real nresp) of Inl x \<Rightarrow> Inl x | Inr p \<Rightarrow>
      case dict_get (actual c) k of Inl x \<Rightarrow> Inl x | Inr nkeys \<Rightarrow>
      case py_div (real v) (real nkeys) of Inl x \<Rightarrow> Inl x | Inr r \<Rightarrow>
      case py_div (2 * (p * r)) (p + r) of Inl x \<Rightarrow> Inl x | Inr f \<Rightarrow>
      Inr (k, p, r, f))"

fun report_lines :: "counts \<Rightarrow> (label \<times> nat) list \<Rightarrow> error + (label \<times> real \<times> real \<times> real) list" where
  "report_lines c [] = Inr []"
| "report_lines c (kv # kvs) =
     (case report_line c kv of
        Inl x \<Rightarrow> Inl x
      | Inr l \<Rightarrow> (case report_lines c kvs of Inl x \<Rightarrow> Inl x | Inr ls \<Rightarrow> Inr (l # ls)))"

definition score :: "tree \<Rightarrow> entity list \<Rightarrow> error + (label \<times> real \<times> real \<times> real) list" where
  "score t ents =
     (case score_loop t ents \<lparr>correct = [], actual = [], resp = []\<rparr> of
        Inl x \<Rightarrow> Inl x
      | Inr c \<Rightarrow> report_lines c (correct c))"

section \<open>Notions used in the statements\<close>

definition count_label :: "label \<Rightarrow> entity list \<Rightarrow> nat" where
  "count_label l ents = length (filter (\<lambda>e. key e = l) ents)"

definition cnt :: "(label \<times> nat) list \<Rightarrow> label \<Rightarrow> nat" where
  "cnt d l = (case map_of d l of None \<Rightarrow> 0 | Some c \<Rightarrow> c)"

text \<open>The entropy of the label distribution of a non-empty list of entities.\<close>

definition entropy_of :: "entity list \<Rightarrow> real" where
  "entropy_of ents =
     (\<Sum>c\<leftarrow>map snd (countkeys ents). real c * log 2 (real (length ents) / real c)) / real (length ents)"

text \<open>A majority label: a label of the list that no other label outnumbers.\<close>

definition majority_label :: "label \<Rightarrow> entity list \<Rightarrow> bool" where
  "majority_label l ents \<longleftrightarrow>
     l \<in> key ` set ents \<and> (\<forall>l'. count_label l' ents \<le> count_label l ents)"

text \<open>
  For the quantitative split: the entities with a defined value paired with it, the
  entities and values in sorted order, the entities without a value, the cut points
  (an index whose value differs from the one before) and the weighted entropy of the cut
  at index \<open>i\<close>.
\<close>

definition defined_pairs :: "(entity \<Rightarrow> int option) \<Rightarrow> entity list \<Rightarrow> (entity \<times> int) list" where
  "defined_pairs get ents = concat (map (\<lambda>e. case get e of None \<Rightarrow> [] | Some v \<Rightarrow> [(e, v)]) ents)"

definition sorted_entities :: "(entity \<Rightarrow> int option) \<Rightarrow> entity list \<Rightarrow> entity list" where
  "sorted_entities get ents = map fst (sort_key snd (defined_pairs get ents))"

definition sorted_values :: "(entity \<Rightarrow> int option) \<Rightarrow> entity list \<Rightarrow> int list" where
  "sorted_values get ents = map snd (sort_key snd (defined_pairs get ents))"

definition undefined_entities :: "(entity \<Rightarrow> int option) \<Rightarrow> entity list \<Rightarrow> entity list" where
  "undefined_entities get ents = filter (\<lambda>e. get e = None) ents"

definition is_cut :: "int list \<Rightarrow> nat \<Rightarrow> bool" where
  "is_cut vs i \<longleftrightarrow> 0 < i \<and> i < length vs \<and> vs ! (i - 1) \<noteq> vs ! i"

definition wavg :: "entity list \<Rightarrow> nat \<Rightarrow> real" where
  "wavg es i =
     (real i * entropy_of (take i es) + real (length es - i) * entropy_of (drop i es)) / real (length es)"

text \<open>Example entities and a fixed iteration order, for concrete instances.\<close>

definition ent_a :: entity where
  "ent_a = \<lparr>eid = 0, key = ''A'', sattrs = [(''type'', ''block'')], nattrs = []\<rparr>"

definition ent_b :: entity where
  "ent_b = \<lparr>eid = 1, key = ''B'', sattrs = [(''type'', ''line'')], nattrs = []\<rparr>"

definition by_eid :: setorder where
  "by_eid e = eid e"

text \<open>Every branch on a quantitative feature carries an integer threshold.\<close>

fun numeric_thresholds :: "tree \<Rightarrow> bool" where
  "numeric_thresholds (TreeLeaf k) = True"
| "numeric_thresholds (TreeBranch feat a dflt children) =
     ((case feat of
         QuantitativeFeature _ \<Rightarrow> (case a of AInt _ \<Rightarrow> True | _ \<Rightarrow> False)
       | _ \<Rightarrow> True) \<and>
      (\<forall>vt \<in> set children. numeric_thresholds (snd vt)))"

definition ent_n :: entity where
  "ent_n = \<lparr>eid = 2, key = ''A'', sattrs = [], nattrs = [(''deltaLine'', 3)]\<rparr>"

text \<open>The five entities of the quantitative example, with values 1, 2, 2, 5, 9.\<close>

definition val1 :: entity where
  "val1 = \<lparr>eid = 10, key = ''A'', sattrs = [], nattrs = [(''value'', 1)]\<rparr>"

definition val2 :: entity where
  "val2 = \<lparr>eid = 11, key = ''A'', sattrs = [], nattrs = [(''value'', 2)]\<rparr>"

definition val2' :: entity where
  "val2' = \<lparr>eid = 12, key = ''A'', sattrs = [], nattrs = [(''value'', 2)]\<rparr>"

definition val5 :: entity where
  "val5 = \<lparr>eid = 13, key = ''B'', sattrs = [], nattrs = [(''value'', 5)]\<rparr>"

definition val9 :: entity where
  "val9 = \<lparr>eid = 14, key = ''B'', sattrs = [], nattrs = [(''value'', 9)]\<rparr>"

text \<open>
  The child that \<open>build\<close> stores for a partition \<open>es\<close>: the tree built from it, or a
  leaf with its \<open>bestkey\<close> when the recursive call returns \<open>None\<close>; \<open>None\<close> here when
  either raises.
\<close>

definition child_of :: "setorder \<Rightarrow> builder \<Rightarrow> entity list \<Rightarrow> tree option" where
  "child_of ord b es =
     (case build ord b es of
        Inl x \<Rightarrow> None
      | Inr None \<Rightarrow> (case bestkey (countkeys es) of Inl x \<Rightarrow> None | Inr best \<Rightarrow> Some (TreeLeaf best))
      | Inr (Some t) \<Rightarrow> Some t)"

text \<open>Example builders: the defaults of \<open>TreeBuilder\<close>, and two with one discrete feature.\<close>

definition builder_default :: builder where
  "builder_default = \<lparr>features = [], minkeys = 10, minetp = 1 / 10\<rparr>"

definition builder_type :: builder where
  "builder_type = addfeat \<lparr>features = [], minkeys = 1, minetp = 1 / 10\<rparr> (DiscreteFeature ''type'')"

definition builder_type0 :: builder where
  "builder_type0 = addfeat \<lparr>features = [], minkeys = 1, minetp = 0\<rparr> (DiscreteFeature ''type'')"

text \<open>
  A tree whose features are registered under their names and whose children have distinct
  keys (as the values of a dictionary have).
\<close>

fun tree_ok :: "builder \<Rightarrow> tree \<Rightarrow> bool" where
  "tree_ok b (TreeLeaf k) = True"
| "tree_ok b (TreeBranch feat a dflt children) =
     (map_of (features b) (feature_name feat) = Some feat \<and> distinct (map fst children) \<and>
      (\<forall>vt \<in> set children. tree_ok b (snd vt)))"

text \<open>\<open>TreeBuilder(minkeys, minetp)\<close> followed by \<open>addfeat\<close> for each feature of a list.\<close>

definition TreeBuilder :: "int \<Rightarrow> real \<Rightarrow> feature list \<Rightarrow> builder" where
  "TreeBuilder k m feats = foldl addfeat \<lparr>features = [], minkeys = k, minetp = m\<rparr> feats"

text \<open>
  Four entities with one word each, a builder with the membership feature on \<open>words\<close>,
  a second iteration order (the reverse of \<open>by_eid\<close> on these entities) and a third that
  differs from \<open>by_eid\<close> only on other entities.
\<close>

definition word1 :: entity where
  "word1 = \<lparr>eid = 20, key = ''A'', sattrs = [(''words'', ''x'')], nattrs = []\<rparr>"

definition word2 :: entity where
  "word2 = \<lparr>eid = 21, key = ''B'', sattrs = [(''words'', ''x'')], nattrs = []\<rparr>"

definition word3 :: entity where
  "word3 = \<lparr>eid = 22, key = ''A'', sattrs = [(''words'', ''y'')], nattrs = []\<rparr>"

definition word4 :: entity where
  "word4 = \<lparr>eid = 23, key = ''B'', sattrs = [(''words'', ''y'')], nattrs = []\<rparr>"

definition builder_words :: builder where
  "builder_words = addfeat \<lparr>features = [], minkeys = 1, minetp = 1 / 10\<rparr> (MembershipFeature ''words'')"

definition by_eid_rev :: setorder where
  "by_eid_rev e = 100 - eid e"

definition by_eid_low :: setorder where
  "by_eid_low e = (if eid e < 5 then eid e else 0)"

text \<open>The depth of a tree: the number of nested calls of \<open>build\<close> that made it.\<close>

fun height :: "tree \<Rightarrow> nat" where
  "height (TreeLeaf k) = 0"
| "height (TreeBranch feat a dflt children) =
     Suc (foldr max (map (\<lambda>vt. height (snd vt)) children) 0)"

text \<open>Two entities without a value, and two more entities with a type.\<close>

definition und1 :: entity where
  "und1 = \<lparr>eid = 15, key = ''A'', sattrs = [], nattrs = []\<rparr>"

definition und2 :: entity where
  "und2 = \<lparr>eid = 16, key = ''B'', sattrs = [], nattrs = []\<rparr>"

definition ent_a2 :: entity where
  "ent_a2 = \<lparr>eid = 3, key = ''A'', sattrs = [(''type'', ''block'')], nattrs = []\<rparr>"

definition ent_b2 :: entity where
  "ent_b2 = \<lparr>eid = 4, key = ''B'', sattrs = [(''type'', ''line'')], nattrs = []\<rparr>"

fun maxlen :: "('a \<times> 'b list) list \<Rightarrow> nat" where
  "maxlen [] = 0"
| "maxlen ((v, es) # sp) = max (length es) (maxlen sp)"

section \<open>Invariants used in the proofs\<close>

text \<open>The dictionary of the discrete split: distinct keys, no empty group, every entity under its value.\<close>

definition groups_ok :: "(entity \<Rightarrow> 'k) \<Rightarrow> ('k \<times> entity list) list \<Rightarrow> bool" where
  "groups_ok get d \<longleftrightarrow>
     distinct (map fst d) \<and> (\<forall>kes \<in> set d. snd kes \<noteq> [] \<and> (\<forall>e \<in> set (snd kes). get e = fst kes))"

text \<open>The dictionary of the membership split: distinct keys, and under each token the set \<open>A\<close> of the entities that have it.\<close>

definition members_ok :: "(string \<times> entity list) list \<Rightarrow> (string \<Rightarrow> entity set) \<Rightarrow> bool" where
  "members_ok d A \<longleftrightarrow>
     distinct (map fst d) \<and>
     (\<forall>k. k \<notin> fst ` set d \<longrightarrow> A k = {}) \<and>
     (\<forall>ks \<in> set d. snd ks \<noteq> [] \<and> distinct (snd ks) \<and> set (snd ks) = A (fst ks))"

text \<open>What the loop of the quantitative split has found after the indices from \<open>k\<close> to \<open>n\<close>, started in state \<open>st\<close>.\<close>

definition qf_post :: "entity list \<Rightarrow> int list \<Rightarrow> nat \<Rightarrow> nat \<Rightarrow> (nat \<times> real) option \<Rightarrow>
    (nat \<times> real) option \<Rightarrow> bool" where
  "qf_post es vs k n st r \<longleftrightarrow>
     (case r of
        None \<Rightarrow> st = None \<and> (\<forall>j. k \<le> j \<and> j < n \<longrightarrow> vs ! (j - 1) = vs ! j)
      | Some (i, m) \<Rightarrow>
          (st = Some (i, m) \<or> (k \<le> i \<and> i < n \<and> vs ! (i - 1) \<noteq> vs ! i \<and> m = wavg es i)) \<and>
          (\<forall>i0 m0. st = Some (i0, m0) \<longrightarrow> m \<le> m0) \<and>
          (\<forall>j. k \<le> j \<and> j < n \<and> vs ! (j - 1) \<noteq> vs ! j \<longrightarrow> m \<le> wavg es j))"

text \<open>The counters of the scoring loop: no label is counted correct more often than predicted or present.\<close>

definition counts_ok :: "counts \<Rightarrow> bool" where
  "counts_ok c \<longleftrightarrow>
     distinct (map fst (correct c)) \<and> 0 \<notin> snd ` set (correct c) \<and>
     (\<forall>k. cnt (correct c) k \<le> cnt (resp c) k \<and> cnt (correct c) k \<le> cnt (actual c) k)"

text \<open>What the loop over the features returns: nothing when every split is invalid, else the first feature of minimal weighted entropy.\<close>

definition select_post :: "setorder \<Rightarrow> feature list \<Rightarrow> entity list \<Rightarrow> branchsel option \<Rightarrow> bool" where
  "select_post ord feats ents r \<longleftrightarrow>
     (case r of
        None \<Rightarrow> (\<forall>f \<in> set feats. split ord f ents = Inl InvalidSplit)
      | Some ((f, a, sp), m) \<Rightarrow>
          (\<exists>i < length feats. feats ! i = f \<and> split ord f ents = Inr (m, a, sp) \<and>
             (\<forall>j < i. \<forall>r'. split ord (feats ! j) ents = Inr r' \<longrightarrow> m < fst r') \<and>
             (\<forall>j < length feats. \<forall>r'. split ord (feats ! j) ents = Inr r' \<longrightarrow> m \<le> fst r')))"

text \<open>A child \<open>(v, t)\<close> of a branch against the partition \<open>(v, es)\<close> it was built from.\<close>

definition child_rel :: "setorder \<Rightarrow> builder \<Rightarrow> bval \<times> tree \<Rightarrow> bval \<times> entity list \<Rightarrow> bool" where
  "child_rel ord b vt ves \<longleftrightarrow>
     fst vt = fst ves \<and>
     (case build ord b (snd ves) of
        Inl x \<Rightarrow> False
      | Inr None \<Rightarrow> (\<exists>l. snd vt = TreeLeaf l \<and> majority_label l (snd ves))
      | Inr (Some t) \<Rightarrow> snd vt = t)"

text \<open>A registry as \<open>addfeat\<close> fills it: every feature under its own name, no name twice.\<close>

definition registry_ok :: "builder \<Rightarrow> bool" where
  "registry_ok b \<longleftrightarrow>
     distinct (map fst (features b)) \<and> (\<forall>nf \<in> set (features b). fst nf = feature_name (snd nf))"

section \<open>Entropy\<close>

lemma calcetp_positive:
  assumes "vals \<noteq> []" and "0 \<notin> set vals"
  shows "calcetp vals =
    Inr (sum_list (map (\<lambda>v. real v * log 2 (real (sum_list vals) / real v)) vals) / real (sum_list vals))"
proof -
  obtain v vs where vals: "vals = v # vs" using assms(1) by (cases vals) auto
  with assms(2) have "0 < v" by auto
  then have "sum_list vals \<noteq> 0" using vals by simp
  with assms(2) show ?thesis by (simp add: calcetp_def Let_def)
qed

text \<open>
  C7. For a non-empty collection of positive counts with sum \<open>n\<close> the entropy is
  \<open>\<Sum> c * log2 (n / c) / n\<close>; a single count yields \<open>0\<close>; an empty collection
  raises (\<open>ZeroDivisionError\<close>) instead of returning a value.
\<close>

theorem calcetp_spec:
  "(vals \<noteq> [] \<and> (\<forall>c \<in> set vals. 0 < c) \<longrightarrow>
      calcetp vals =
        Inr ((\<Sum>c\<leftarrow>vals. real c * log 2 (real (sum_list vals) / real c)) / real (sum_list vals)))
   \<and> (0 < n \<longrightarrow> calcetp [n] = Inr 0)
   \<and> calcetp [] = Inl ZeroDivisionError"
proof (intro conjI impI)
  assume "vals \<noteq> [] \<and> (\<forall>c \<in> set vals. 0 < c)"
  then have "vals \<noteq> []" "0 \<notin> set vals" by auto
  then show "calcetp vals =
        Inr ((\<Sum>c\<leftarrow>vals. real c * log 2 (real (sum_list vals) / real c)) / real (sum_list vals))"
    by (rule calcetp_positive)
next
  assume "0 < n"
  then show "calcetp [n] = Inr 0" by (simp add: calcetp_def)
next
  show "calcetp [] = Inl ZeroDivisionError" by (simp add: calcetp_def)
qed

theorem calcetp_spec_witness:
  "calcetp [2, 2] = Inr 1 \<and> calcetp [3] = Inr 0 \<and> calcetp [] = Inl ZeroDivisionError"
  using calcetp_spec [of "[2, 2]" 3] by simp

section \<open>Label counts\<close>

lemma inc_key_pos: "0 \<notin> snd ` set d \<Longrightarrow> 0 \<notin> snd ` set (inc_key k d)"
  by (induction k d rule: inc_key.induct) (auto simp: image_iff)

lemma inc_key_keys: "fst ` set (inc_key k d) = insert k (fst ` set d)"
  by (induction k d rule: inc_key.induct) auto

lemma inc_key_distinct: "distinct (map fst d) \<Longrightarrow> distinct (map fst (inc_key k d))"
  by (induction k d rule: inc_key.induct) (auto simp: inc_key_keys)

lemma cnt_inc_key: "cnt (inc_key k d) l = cnt d l + (if l = k then 1 else 0)"
  by (induction k d rule: inc_key.induct) (auto simp: cnt_def)

lemma sum_inc_key: "sum_list (map snd (inc_key k d)) = Suc (sum_list (map snd d))"
  by (induction k d rule: inc_key.induct) auto

lemma cnt_mem: "distinct (map fst d) \<Longrightarrow> (l, c) \<in> set d \<Longrightarrow> cnt d l = c"
  by (simp add: cnt_def)

lemma cnt_notin: "l \<notin> fst ` set d \<Longrightarrow> cnt d l = 0"
  using map_of_eq_None_iff [of d l] by (simp add: cnt_def)

lemma foldl_inc_key_keys:
  "fst ` set (foldl (\<lambda>d e. inc_key (key e) d) d ents) = fst ` set d \<union> key ` set ents"
  by (induction ents arbitrary: d) (auto simp: inc_key_keys)

lemma foldl_inc_key_distinct:
  "distinct (map fst d) \<Longrightarrow> distinct (map fst (foldl (\<lambda>d e. inc_key (key e) d) d ents))"
  by (induction ents arbitrary: d) (auto simp: inc_key_distinct)

lemma foldl_inc_key_pos:
  "0 \<notin> snd ` set d \<Longrightarrow> 0 \<notin> snd ` set (foldl (\<lambda>d e. inc_key (key e) d) d ents)"
proof (induction ents arbitrary: d)
  case Nil
  then show ?case by simp
next
  case (Cons e ents)
  from inc_key_pos [OF Cons.prems] Cons.IH show ?case by simp
qed

lemma foldl_inc_key_cnt:
  "cnt (foldl (\<lambda>d e. inc_key (key e) d) d ents) l = cnt d l + count_label l ents"
  by (induction ents arbitrary: d) (auto simp: cnt_inc_key count_label_def)

lemma foldl_inc_key_sum:
  "sum_list (map snd (foldl (\<lambda>d e. inc_key (key e) d) d ents)) = sum_list (map snd d) + length ents"
  by (induction ents arbitrary: d) (auto simp: sum_inc_key)

lemma countkeys_distinct: "distinct (map fst (countkeys ents))"
  unfolding countkeys_def by (rule foldl_inc_key_distinct) simp

lemma countkeys_pos: "0 \<notin> snd ` set (countkeys ents)"
  unfolding countkeys_def by (rule foldl_inc_key_pos) simp

lemma countkeys_keys: "fst ` set (countkeys ents) = key ` set ents"
  unfolding countkeys_def by (simp add: foldl_inc_key_keys)

lemma countkeys_sum: "sum_list (map snd (countkeys ents)) = length ents"
  unfolding countkeys_def by (simp add: foldl_inc_key_sum)

lemma countkeys_cnt: "cnt (countkeys ents) l = count_label l ents"
proof -
  have "cnt [] l = 0" by (simp add: cnt_def)
  then show ?thesis unfolding countkeys_def by (simp add: foldl_inc_key_cnt)
qed

lemma countkeys_mem:
  assumes "(l, c) \<in> set (countkeys ents)"
  shows "c = count_label l ents" and "l \<in> key ` set ents"
proof -
  have "cnt (countkeys ents) l = c" using assms countkeys_distinct by (rule cnt_mem [rotated])
  then show "c = count_label l ents" by (simp add: countkeys_cnt)
  show "l \<in> key ` set ents" using assms countkeys_keys [of ents] by force
qed

lemma countkeys_nonempty: "ents \<noteq> [] \<Longrightarrow> countkeys ents \<noteq> []"
  using countkeys_keys [of ents] by auto

lemma countkeys_Nil [simp]: "countkeys [] = []"
  by (simp add: countkeys_def)

lemma entetp_nonempty: "ents \<noteq> [] \<Longrightarrow> entetp ents = Inr (entropy_of ents)"
  unfolding entetp_def entropy_of_def
  using calcetp_positive [of "map snd (countkeys ents)"] countkeys_pos [of ents]
    countkeys_nonempty [of ents]
  by (simp add: countkeys_sum)

lemma calcetp_nonneg:
  assumes "calcetp vals = Inr h"
  shows "0 \<le> h"
proof -
  from assms have z: "0 \<notin> set vals"
    and h: "h = sum_list (map (\<lambda>v. real v * log 2 (real (sum_list vals) / real v)) vals) / real (sum_list vals)"
    by (auto simp: calcetp_def Let_def split: if_splits)
  have "0 \<le> real v * log 2 (real (sum_list vals) / real v)" if "v \<in> set vals" for v
  proof -
    have "v \<noteq> 0" using that z by metis
    then have "0 < v" by simp
    moreover have "v \<le> sum_list vals" using that by (simp add: member_le_sum_list)
    ultimately have "1 \<le> real (sum_list vals) / real v" by simp
    then have "0 \<le> log 2 (real (sum_list vals) / real v)" by simp
    then show ?thesis by simp
  qed
  then have "0 \<le> sum_list (map (\<lambda>v. real v * log 2 (real (sum_list vals) / real v)) vals)"
    by (intro sum_list_nonneg) auto
  then show ?thesis using h by simp
qed

lemma entetp_nonneg: "entetp es = Inr h \<Longrightarrow> 0 \<le> h"
  unfolding entetp_def by (rule calcetp_nonneg)

lemma entropy_of_nonneg: "ents \<noteq> [] \<Longrightarrow> 0 \<le> entropy_of ents"
  using entetp_nonempty [of ents] entetp_nonneg [of ents] by simp

section \<open>Majority label\<close>

lemma bestkey_loop_Some:
  "bestkey_loop keys (Some k0) v0 = Some k \<Longrightarrow>
   \<exists>v. (k, v) \<in> set ((k0, v0) # keys) \<and> (\<forall>kv \<in> set ((k0, v0) # keys). snd kv \<le> v)"
proof (induction keys arbitrary: k0 v0)
  case Nil
  then show ?case by simp
next
  case (Cons kv keys)
  obtain k1 v1 where kv: "kv = (k1, v1)" by (cases kv)
  show ?case
  proof (cases "v0 < v1")
    case True
    with Cons.prems kv have "bestkey_loop keys (Some k1) v1 = Some k" by simp
    from Cons.IH [OF this] obtain v where
      v: "(k, v) \<in> set ((k1, v1) # keys)" "\<forall>kv \<in> set ((k1, v1) # keys). snd kv \<le> v"
      by blast
    from v(2) have "v1 \<le> v" by simp
    with True have "v0 \<le> v" by simp
    with v kv show ?thesis by (intro exI [of _ v]) simp
  next
    case False
    with Cons.prems kv have "bestkey_loop keys (Some k0) v0 = Some k" by simp
    from Cons.IH [OF this] obtain v where
      v: "(k, v) \<in> set ((k0, v0) # keys)" "\<forall>kv \<in> set ((k0, v0) # keys). snd kv \<le> v"
      by blast
    from v(2) have "v0 \<le> v" by simp
    with False have "v1 \<le> v" by simp
    with v kv show ?thesis by (intro exI [of _ v]) auto
  qed
qed

lemma bestkey_max:
  assumes "bestkey keys = Inr k"
  shows "\<exists>v. (k, v) \<in> set keys \<and> (\<forall>kv \<in> set keys. snd kv \<le> v)"
proof (cases keys)
  case Nil
  with assms show ?thesis by (simp add: bestkey_def)
next
  case (Cons kv keys')
  obtain k1 v1 where kv: "kv = (k1, v1)" by (cases kv)
  from assms Cons kv have "bestkey_loop keys' (Some k1) v1 = Some k"
    by (simp add: bestkey_def split: option.splits)
  from bestkey_loop_Some [OF this] Cons kv show ?thesis by simp
qed

lemma bestkey_loop_not_None: "bestkey_loop keys (Some k0) v0 \<noteq> None"
  by (induction keys arbitrary: k0 v0) auto

lemma bestkey_nonempty: "keys \<noteq> [] \<Longrightarrow> \<exists>k. bestkey keys = Inr k"
proof -
  assume "keys \<noteq> []"
  then obtain k1 v1 keys' where "keys = (k1, v1) # keys'" by (cases keys) auto
  then show ?thesis
    using bestkey_loop_not_None [of keys' k1 v1]
    by (auto simp: bestkey_def split: option.splits)
qed

lemma bestkey_countkeys_majority:
  assumes "bestkey (countkeys ents) = Inr k"
  shows "majority_label k ents"
proof -
  from bestkey_max [OF assms] obtain v where
    kv: "(k, v) \<in> set (countkeys ents)" and mx: "\<forall>kv \<in> set (countkeys ents). snd kv \<le> v"
    by blast
  from countkeys_mem [OF kv] have v: "v = count_label k ents" and k: "k \<in> key ` set ents" by auto
  have "count_label l ents \<le> count_label k ents" for l
  proof (cases "l \<in> fst ` set (countkeys ents)")
    case True
    then obtain c where lc: "(l, c) \<in> set (countkeys ents)" by auto
    with mx have "c \<le> v" by force
    with countkeys_mem(1) [OF lc] v show ?thesis by simp
  next
    case False
    then have "cnt (countkeys ents) l = 0" by (rule cnt_notin)
    then show ?thesis by (simp add: countkeys_cnt)
  qed
  with k show ?thesis by (auto simp: majority_label_def)
qed

lemma bestkey_countkeys_nonempty: "ents \<noteq> [] \<Longrightarrow> \<exists>k. bestkey (countkeys ents) = Inr k"
  by (rule bestkey_nonempty) (rule countkeys_nonempty)

section \<open>Partitions of the discrete split\<close>

lemma add_group_keys: "fst ` set (add_group v e d) = insert v (fst ` set d)"
  by (induction v e d rule: add_group.induct) auto

lemma add_group_distinct: "distinct (map fst d) \<Longrightarrow> distinct (map fst (add_group v e d))"
  by (induction v e d rule: add_group.induct) (auto simp: add_group_keys)

lemma add_group_mset:
  "mset (concat (map snd (add_group v e d))) = add_mset e (mset (concat (map snd d)))"
  by (induction v e d rule: add_group.induct) auto

lemma add_group_mem:
  "(k, es) \<in> set (add_group v e d) \<Longrightarrow>
   (k, es) \<in> set d \<or> (k = v \<and> (es = [e] \<or> (\<exists>es0. (k, es0) \<in> set d \<and> es = es0 @ [e])))"
  by (induction v e d rule: add_group.induct) (auto split: if_splits)

lemma groups_ok_add: "groups_ok get d \<Longrightarrow> groups_ok get (add_group (get e) e d)"
  unfolding groups_ok_def
  by (auto simp: add_group_distinct dest!: add_group_mem)

lemma groups_ok_foldl:
  "groups_ok get d \<Longrightarrow> groups_ok get (foldl (\<lambda>d e. add_group (get e) e d) d ents)"
  by (induction ents arbitrary: d) (auto simp: groups_ok_add)

lemma groups_mset_foldl:
  "mset (concat (map snd (foldl (\<lambda>d e. add_group (get e) e d) d ents))) =
   mset (concat (map snd d)) + mset ents"
  by (induction ents arbitrary: d) (auto simp: add_group_mset)

text \<open>A member of a list of at least two non-empty lists is a proper part of their union.\<close>

lemma part_proper:
  assumes mem: "(k, es) \<in> set d" and len: "2 \<le> length d"
    and ne: "\<forall>kes \<in> set d. snd kes \<noteq> []"
  shows "mset es \<subset># mset (concat (map snd d))"
proof -
  from mem obtain pre post where d: "d = pre @ (k, es) # post" by (meson split_list)
  with len have "pre @ post \<noteq> []" by (cases pre; cases post) auto
  then obtain kes where kes: "kes \<in> set (pre @ post)" by (cases "pre @ post") auto
  with d ne have "snd kes \<noteq> []" by auto
  with kes have "concat (map snd (pre @ post)) \<noteq> []" by auto
  then have "mset (concat (map snd (pre @ post))) \<noteq> {#}" by simp
  moreover have "mset (concat (map snd d)) = mset es + mset (concat (map snd (pre @ post)))"
    using d by simp
  ultimately show ?thesis by (metis mset_subset_add_iff2 add.commute subset_mset.add_diff_inverse
        subset_mset.less_le mset_subset_eq_add_left add_cancel_left_right)
qed

lemma sum_etp_nonempty:
  "\<forall>es \<in> set ess. es \<noteq> [] \<Longrightarrow> \<exists>s. sum_etp ess = Inr s"
  by (induction ess) (auto simp: entetp_nonempty)

lemma bval_of_inj: "bval_of x = bval_of y \<Longrightarrow> x = y"
  by (cases x; cases y) auto

lemma DiscreteFeature_split_cases:
  "2 \<le> length ents \<Longrightarrow>
   DiscreteFeature_split get ents = Inl InvalidSplit \<or> (\<exists>r. DiscreteFeature_split get ents = Inr r)"
proof -
  assume "2 \<le> length ents"
  let ?d = "foldl (\<lambda>d e. add_group (get e) e d) [] ents"
  have "groups_ok get ?d" by (rule groups_ok_foldl) (simp add: groups_ok_def)
  then have "\<forall>es \<in> set (map snd ?d). es \<noteq> []" by (auto simp: groups_ok_def)
  from sum_etp_nonempty [OF this] obtain s where "sum_etp (map snd ?d) = Inr s" ..
  with \<open>2 \<le> length ents\<close> show ?thesis by (simp add: DiscreteFeature_split_def Let_def)
qed

lemma DiscreteFeature_split_parts:
  assumes "DiscreteFeature_split get ents = Inr (etp, a, parts)"
  shows "2 \<le> length parts" and "distinct (map fst parts)" and "a = ANone"
    and "\<forall>ves \<in> set parts. mset (snd ves) \<subset># mset ents \<and> snd ves \<noteq> [] \<and>
           (\<forall>e \<in> set (snd ves). bval_of (get e) = fst ves)"
proof -
  let ?d = "foldl (\<lambda>d e. add_group (get e) e d) [] ents"
  from assms have len: "2 \<le> length ?d" and a: "a = ANone"
    and parts: "parts = map (\<lambda>(v, es). (bval_of v, es)) ?d"
    by (auto simp: DiscreteFeature_split_def Let_def split: if_splits sum.splits)
  have ok: "groups_ok get ?d" by (rule groups_ok_foldl) (simp add: groups_ok_def)
  have ms: "mset (concat (map snd ?d)) = mset ents" by (simp add: groups_mset_foldl)
  show "2 \<le> length parts" using len parts by simp
  show "a = ANone" by (rule a)
  have "map fst parts = map bval_of (map fst ?d)" unfolding parts by (simp add: case_prod_unfold comp_def)
  moreover have "distinct (map bval_of (map fst ?d))"
  proof -
    have d1: "distinct (map fst ?d)" using ok by (simp add: groups_ok_def)
    have "inj_on bval_of (set (map fst ?d))" by (rule inj_onI) (rule bval_of_inj)
    with d1 show ?thesis by (simp only: distinct_map simp_thms)
  qed
  ultimately show "distinct (map fst parts)" by simp
  show "\<forall>ves \<in> set parts. mset (snd ves) \<subset># mset ents \<and> snd ves \<noteq> [] \<and>
           (\<forall>e \<in> set (snd ves). bval_of (get e) = fst ves)"
  proof
    fix ves assume "ves \<in> set parts"
    then obtain k es where kes: "(k, es) \<in> set ?d" and ves: "ves = (bval_of k, es)"
      unfolding parts by auto
    have ne: "\<forall>kes \<in> set ?d. snd kes \<noteq> []" using ok by (simp add: groups_ok_def)
    from part_proper [OF kes len ne] ms have "mset es \<subset># mset ents" by simp
    moreover from ok kes have "es \<noteq> []" "\<forall>e \<in> set es. get e = k" by (auto simp: groups_ok_def)
    ultimately show "mset (snd ves) \<subset># mset ents \<and> snd ves \<noteq> [] \<and>
           (\<forall>e \<in> set (snd ves). bval_of (get e) = fst ves)"
      using ves by simp
  qed
qed

section \<open>Partitions of the membership split\<close>

lemma mset_proper_by_witness: "A \<subseteq># B \<Longrightarrow> x \<in># B \<Longrightarrow> x \<notin># A \<Longrightarrow> A \<subset># B"
  by (auto simp: subset_mset.less_le)

lemma distinct_mset_subseteq:
  assumes "distinct xs" and "set xs \<subseteq> set ys"
  shows "mset xs \<subseteq># mset ys"
proof (rule mset_subset_eqI)
  fix a
  show "count (mset xs) a \<le> count (mset ys) a"
  proof (cases "a \<in> set xs")
    case True
    with assms(1) have "count (mset xs) a = 1" by (simp add: distinct_count_atmost_1)
    moreover from True assms(2) have "a \<in># mset ys" by auto
    then have "1 \<le> count (mset ys) a" by (simp add: Suc_le_eq)
    ultimately show ?thesis by simp
  next
    case False
    then have "count (mset xs) a = 0" by (simp add: count_mset_0_iff)
    then show ?thesis by arith
  qed
qed

lemma set_add_props:
  "set (set_add e s) = insert e (set s)" "set_add e s \<noteq> []"
  "distinct s \<Longrightarrow> distinct (set_add e s)"
  by (auto simp: set_add_def)

lemma add_member_keys: "fst ` set (add_member v e d) = insert v (fst ` set d)"
  by (induction v e d rule: add_member.induct) auto

lemma add_member_distinct: "distinct (map fst d) \<Longrightarrow> distinct (map fst (add_member v e d))"
  by (induction v e d rule: add_member.induct) (auto simp: add_member_keys)

lemma add_member_mem:
  "distinct (map fst d) \<Longrightarrow> (k, s) \<in> set (add_member v e d) \<Longrightarrow>
   (k \<noteq> v \<and> (k, s) \<in> set d) \<or>
   (k = v \<and> ((s = [e] \<and> v \<notin> fst ` set d) \<or> (\<exists>s0. (v, s0) \<in> set d \<and> s = set_add e s0)))"
proof (induction v e d rule: add_member.induct)
  case (1 v e)
  then show ?case by simp
next
  case (2 v e k' es d)
  show ?case
  proof (cases "v = k'")
    case True
    with 2(2,3) show ?thesis by (auto simp: image_iff)
  next
    case False
    with 2(2,3) have "(k, s) = (k', es) \<or> (k, s) \<in> set (add_member v e d)" by simp
    then show ?thesis
    proof
      assume "(k, s) = (k', es)"
      with False show ?thesis by simp
    next
      assume a: "(k, s) \<in> set (add_member v e d)"
      from 2(2) have "distinct (map fst d)" by simp
      from 2(1) [OF False this a] False show ?thesis by auto
    qed
  qed
qed

lemma members_ok_add:
  assumes "members_ok d A"
  shows "members_ok (add_member v e d) (A(v := insert e (A v)))"
proof -
  from assms have dist: "distinct (map fst d)"
    and emp: "\<And>k. k \<notin> fst ` set d \<Longrightarrow> A k = {}"
    and mem: "\<And>k s. (k, s) \<in> set d \<Longrightarrow> s \<noteq> [] \<and> distinct s \<and> set s = A k"
    by (auto simp: members_ok_def)
  have "s \<noteq> [] \<and> distinct s \<and> set s = (A(v := insert e (A v))) k"
    if "(k, s) \<in> set (add_member v e d)" for k s
  proof -
    from add_member_mem [OF dist that]
    consider "k \<noteq> v" "(k, s) \<in> set d" | "k = v" "s = [e]" "v \<notin> fst ` set d"
      | s0 where "k = v" "(v, s0) \<in> set d" "s = set_add e s0"
      by blast
    then show ?thesis
    proof cases
      case 1
      then show ?thesis using mem by simp
    next
      case 2
      then show ?thesis using emp by simp
    next
      case 3
      then show ?thesis using mem [OF 3(2)] by (simp add: set_add_props)
    qed
  qed
  then show ?thesis
    using dist emp by (auto simp: members_ok_def add_member_distinct add_member_keys)
qed

lemma members_ok_tokens:
  "members_ok d A \<Longrightarrow>
   members_ok (foldl (\<lambda>d v. add_member v e d) d toks)
     (\<lambda>k. if k \<in> set toks then insert e (A k) else A k)"
proof (induction toks arbitrary: d A)
  case Nil
  then show ?case by simp
next
  case (Cons v toks)
  have eq: "(\<lambda>k. if k \<in> set toks then insert e ((A(v := insert e (A v))) k) else (A(v := insert e (A v))) k)
      = (\<lambda>k. if k \<in> set (v # toks) then insert e (A k) else A k)"
    by (auto simp: fun_eq_iff)
  from Cons.IH [OF members_ok_add [OF Cons.prems, of v e]] show ?case
    unfolding eq by simp
qed

lemma members_ok_ents:
  "members_ok d A \<Longrightarrow>
   members_ok (foldl (\<lambda>d e. foldl (\<lambda>d v. add_member v e d) d (get e)) d ents)
     (\<lambda>k. A k \<union> {e \<in> set ents. k \<in> set (get e)})"
proof (induction ents arbitrary: d A)
  case Nil
  then show ?case by simp
next
  case (Cons e ents)
  let ?A1 = "\<lambda>k. if k \<in> set (get e) then insert e (A k) else A k"
  have eq: "(\<lambda>k. ?A1 k \<union> {e' \<in> set ents. k \<in> set (get e')})
      = (\<lambda>k. A k \<union> {e' \<in> set (e # ents). k \<in> set (get e')})"
    by (auto simp: fun_eq_iff)
  from Cons.IH [OF members_ok_tokens [OF Cons.prems, of e "get e"]] show ?case
    unfolding eq by simp
qed

lemma members_dict_ok:
  "members_ok (members_dict get ents) (\<lambda>k. {e \<in> set ents. k \<in> set (get e)})"
proof -
  have "members_ok [] (\<lambda>k. {})" by (simp add: members_ok_def)
  from members_ok_ents [OF this, of get ents] show ?thesis by (simp add: members_dict_def)
qed

lemma set_list_props [simp]:
  "set (set_list ord s) = set s" "mset (set_list ord s) = mset s"
  "length (set_list ord s) = length s" "(set_list ord s = []) = (s = [])"
  unfolding set_list_def by (simp_all add: length_0_conv [symmetric] del: length_0_conv)

lemma mf_scan_result:
  "mf_scan ord ents d st = Inr (Some ((v, nes), m)) \<Longrightarrow>
   st = Some ((v, nes), m) \<or>
   (\<exists>es. (v, es) \<in> set d \<and> nes = filter (\<lambda>e. e \<notin> set es) ents \<and> nes \<noteq> [])"
proof (induction d arbitrary: st)
  case Nil
  then show ?case by simp
next
  case (Cons ks d)
  obtain k s where ks: "ks = (k, s)" by (cases ks)
  let ?nes = "filter (\<lambda>e. e \<notin> set s) ents"
  show ?case
  proof (cases "?nes = []")
    case True
    with Cons.prems ks have "mf_scan ord ents d st = Inr (Some ((v, nes), m))" by simp
    from Cons.IH [OF this] show ?thesis by auto
  next
    case False
    with Cons.prems ks obtain st' where
      st': "mf_scan ord ents d st' = Inr (Some ((v, nes), m))"
      and alt: "st' = st \<or> (\<exists>m'. st' = Some ((k, ?nes), m'))"
      by (auto simp: Let_def split: sum.splits if_splits)
    from Cons.IH [OF st'] alt False ks show ?thesis by auto
  qed
qed

lemma mf_scan_no_error:
  "\<forall>ks \<in> set d. snd ks \<noteq> [] \<Longrightarrow> \<exists>r. mf_scan ord ents d st = Inr r"
proof (induction d arbitrary: st)
  case Nil
  then show ?case by simp
next
  case (Cons ks d)
  obtain k s where ks: "ks = (k, s)" by (cases ks)
  with Cons.prems have s: "s \<noteq> []" and rest: "\<forall>ks \<in> set d. snd ks \<noteq> []" by auto
  show ?case
    using Cons.IH [OF rest] s ks
    by (simp add: Let_def entetp_nonempty)
qed

lemma MembershipFeature_split_cases:
  assumes "2 \<le> length ents"
  shows "MembershipFeature_split ord get ents = Inl InvalidSplit \<or>
         (\<exists>r. MembershipFeature_split ord get ents = Inr r)"
proof -
  let ?d = "members_dict get ents"
  have ok: "members_ok ?d (\<lambda>k. {e \<in> set ents. k \<in> set (get e)})" by (rule members_dict_ok)
  then have "\<forall>ks \<in> set ?d. snd ks \<noteq> []" by (simp add: members_ok_def)
  from mf_scan_no_error [OF this] obtain r where r: "mf_scan ord ents ?d None = Inr r" by blast
  show ?thesis
  proof (cases r)
    case None
    with r assms show ?thesis by (simp add: MembershipFeature_split_def Let_def)
  next
    case (Some x)
    obtain v nes m where x: "x = ((v, nes), m)" by (metis prod.exhaust)
    from mf_scan_result [of ord ents ?d None v nes m] r Some x
    obtain es where "(v, es) \<in> set ?d" by auto
    moreover from ok have "distinct (map fst ?d)" by (simp add: members_ok_def)
    ultimately have "map_of ?d v = Some es" by simp
    with r Some x assms show ?thesis by (simp add: MembershipFeature_split_def Let_def)
  qed
qed

lemma MembershipFeature_split_parts:
  assumes "MembershipFeature_split ord get ents = Inr (etp, a, parts)"
  shows "\<exists>tok es nes. a = AStr tok \<and>
           parts = [(BBool True, set_list ord es), (BBool False, nes)] \<and>
           es \<noteq> [] \<and> distinct es \<and> set es = {e \<in> set ents. tok \<in> set (get e)} \<and>
           nes = filter (\<lambda>e. e \<notin> set es) ents \<and> nes \<noteq> []"
proof -
  let ?d = "members_dict get ents"
  have ok: "members_ok ?d (\<lambda>k. {e \<in> set ents. k \<in> set (get e)})" by (rule members_dict_ok)
  from assms obtain tok nes es where
    scan: "mf_scan ord ents ?d None = Inr (Some ((tok, nes), etp))"
    and look: "map_of ?d tok = Some es"
    and a: "a = AStr tok"
    and parts: "parts = [(BBool True, set_list ord es), (BBool False, nes)]"
    by (auto simp: MembershipFeature_split_def Let_def split: if_splits sum.splits option.splits)
  from mf_scan_result [OF scan] obtain es' where
    es': "(tok, es') \<in> set ?d" "nes = filter (\<lambda>e. e \<notin> set es') ents" "nes \<noteq> []" by auto
  from ok have "distinct (map fst ?d)" by (simp add: members_ok_def)
  with es'(1) look have "es' = es" by simp
  moreover from ok es'(1) have "es' \<noteq> []" "distinct es'" "set es' = {e \<in> set ents. tok \<in> set (get e)}"
    by (auto simp: members_ok_def)
  ultimately show ?thesis using a parts es' by blast
qed

lemma MembershipFeature_split_generic:
  assumes "MembershipFeature_split ord get ents = Inr (etp, a, parts)"
  shows "2 \<le> length parts" and "distinct (map fst parts)"
    and "\<forall>ves \<in> set parts. mset (snd ves) \<subset># mset ents \<and> snd ves \<noteq> [] \<and>
           (\<forall>e \<in> set (snd ves). MembershipFeature_ident get a e = fst ves)"
proof -
  from MembershipFeature_split_parts [OF assms] obtain tok es nes where
    a: "a = AStr tok" and parts: "parts = [(BBool True, set_list ord es), (BBool False, nes)]"
    and es: "es \<noteq> []" "distinct es" "set es = {e \<in> set ents. tok \<in> set (get e)}"
    and nes: "nes = filter (\<lambda>e. e \<notin> set es) ents" "nes \<noteq> []"
    by blast
  show "2 \<le> length parts" and "distinct (map fst parts)" using parts by simp_all
  from es(1) obtain e1 where e1: "e1 \<in> set es" by (cases es) auto
  from nes(2) obtain e2 where e2: "e2 \<in> set nes" by (cases nes) auto
  have sub: "set es \<subseteq> set ents" using es(3) by auto
  have "mset es \<subseteq># mset ents" using es(2) sub by (rule distinct_mset_subseteq)
  moreover have "e2 \<in># mset ents" "e2 \<notin># mset es" using e2 nes(1) by auto
  ultimately have p1: "mset es \<subset># mset ents" by (rule mset_proper_by_witness)
  have "mset nes \<subseteq># mset ents" unfolding nes(1) by simp
  moreover have "e1 \<in># mset ents" "e1 \<notin># mset nes" using e1 sub nes(1) by auto
  ultimately have p2: "mset nes \<subset># mset ents" by (rule mset_proper_by_witness)
  have i1: "MembershipFeature_ident get a e = BBool True" if "e \<in> set es" for e
    using that es(3) a by (simp add: MembershipFeature_ident_def)
  have i2: "MembershipFeature_ident get a e = BBool False" if "e \<in> set nes" for e
    using that es(3) a nes(1) by (simp add: MembershipFeature_ident_def)
  show "\<forall>ves \<in> set parts. mset (snd ves) \<subset># mset ents \<and> snd ves \<noteq> [] \<and>
           (\<forall>e \<in> set (snd ves). MembershipFeature_ident get a e = fst ves)"
    unfolding parts using p1 p2 es(1) nes(2) i1 i2 by simp
qed

section \<open>Partitions of the quantitative split\<close>

lemma qf_post_skip:
  assumes "qf_post es vs (Suc k) n st r" and "vs ! (k - 1) = vs ! k"
  shows "qf_post es vs k n st r"
proof -
  have *: "k \<le> j \<longleftrightarrow> j = k \<or> Suc k \<le> j" for j by auto
  show ?thesis
    using assms unfolding qf_post_def
    by (cases r) (auto simp: *)
qed

lemma qf_post_keep:
  assumes "qf_post es vs (Suc k) n (Some (i0, m0)) r" and "m0 \<le> wavg es k"
  shows "qf_post es vs k n (Some (i0, m0)) r"
proof -
  have *: "k \<le> j \<longleftrightarrow> j = k \<or> Suc k \<le> j" for j by auto
  show ?thesis
    using assms unfolding qf_post_def
    by (cases r) (auto simp: *)
qed

lemma qf_post_take:
  assumes "qf_post es vs (Suc k) n (Some (k, wavg es k)) r"
    and "k < n" and "vs ! (k - 1) \<noteq> vs ! k"
    and "\<forall>i0 m0. st = Some (i0, m0) \<longrightarrow> wavg es k < m0"
  shows "qf_post es vs k n st r"
proof -
  have *: "k \<le> j \<longleftrightarrow> j = k \<or> Suc k \<le> j" for j by auto
  from assms(1) obtain i m where r: "r = Some (i, m)"
    unfolding qf_post_def by (cases r) auto
  from assms(1) r have a: "(i = k \<and> m = wavg es k) \<or> (Suc k \<le> i \<and> i < n \<and> vs ! (i - 1) \<noteq> vs ! i \<and> m = wavg es i)"
    and b: "m \<le> wavg es k"
    and c: "\<forall>j. Suc k \<le> j \<and> j < n \<and> vs ! (j - 1) \<noteq> vs ! j \<longrightarrow> m \<le> wavg es j"
    unfolding qf_post_def by auto
  from a assms(2,3) have a': "k \<le> i \<and> i < n \<and> vs ! (i - 1) \<noteq> vs ! i \<and> m = wavg es i" by auto
  have b': "\<forall>i0 m0. st = Some (i0, m0) \<longrightarrow> m \<le> m0" using assms(4) b by fastforce
  have c': "\<forall>j. k \<le> j \<and> j < n \<and> vs ! (j - 1) \<noteq> vs ! j \<longrightarrow> m \<le> wavg es j"
    using b c by (auto simp: *)
  show ?thesis unfolding qf_post_def r using a' b' c' by simp
qed

lemma qf_scan_post:
  "1 \<le> k \<Longrightarrow> n = length es \<Longrightarrow>
   \<exists>r. qf_scan es vs [k..<n] (vs ! (k - 1)) st = Inr r \<and> qf_post es vs k n st r"
proof (induction "n - k" arbitrary: k st)
  case 0
  then have "[k..<n] = []" by simp
  then show ?case by (cases st) (auto simp: qf_post_def)
next
  case (Suc d)
  then have kn: "k < n" and d: "d = n - Suc k" by auto
  then have upt: "[k..<n] = k # [Suc k..<n]" by (simp add: upt_conv_Cons)
  have ih: "\<exists>r. qf_scan es vs [Suc k..<n] (vs ! k) st' = Inr r \<and> qf_post es vs (Suc k) n st' r" for st'
    using Suc.hyps(1) [OF d, of st'] Suc.prems(2) by simp
  from kn Suc.prems have t: "take k es \<noteq> []" and dr: "drop k es \<noteq> []" by auto
  have e1: "entetp (take k es) = Inr (entropy_of (take k es))" using t by (rule entetp_nonempty)
  have e2: "entetp (drop k es) = Inr (entropy_of (drop k es))" using dr by (rule entetp_nonempty)
  have len: "length (take k es) = k" using kn Suc.prems(2) by simp
  show ?case
  proof (cases "vs ! (k - 1) = vs ! k")
    case True
    from ih [of st] obtain r where r: "qf_scan es vs [Suc k..<n] (vs ! k) st = Inr r"
      "qf_post es vs (Suc k) n st r" by blast
    from r(1) True have "qf_scan es vs [k..<n] (vs ! (k - 1)) st = Inr r"
      unfolding upt by simp
    with qf_post_skip [OF r(2) True] show ?thesis by blast
  next
    case False
    show ?thesis
    proof (cases "case st of None \<Rightarrow> True | Some (_, m0) \<Rightarrow> wavg es k < m0")
      case True
      from ih [of "Some (k, wavg es k)"] obtain r where
        r: "qf_scan es vs [Suc k..<n] (vs ! k) (Some (k, wavg es k)) = Inr r"
        "qf_post es vs (Suc k) n (Some (k, wavg es k)) r" by blast
      from r(1) True False have "qf_scan es vs [k..<n] (vs ! (k - 1)) st = Inr r"
        unfolding upt by (simp add: e1 e2 Let_def wavg_def [symmetric])
      moreover have "\<forall>i0 m0. st = Some (i0, m0) \<longrightarrow> wavg es k < m0" using True by auto
      from qf_post_take [OF r(2) kn False this] have "qf_post es vs k n st r" .
      ultimately show ?thesis by blast
    next
      case nb: False
      then obtain i0 m0 where st: "st = Some (i0, m0)" and m0: "m0 \<le> wavg es k"
        by (cases st) auto
      from ih [of st] obtain r where r: "qf_scan es vs [Suc k..<n] (vs ! k) st = Inr r"
        "qf_post es vs (Suc k) n st r" by blast
      from r(1) nb False have "qf_scan es vs [k..<n] (vs ! (k - 1)) st = Inr r"
        unfolding upt by (simp add: e1 e2 Let_def wavg_def [symmetric])
      moreover from qf_post_keep [OF r(2) [unfolded st] m0] have "qf_post es vs k n st r"
        unfolding st .
      ultimately show ?thesis by blast
    qed
  qed
qed

lemma defined_pairs_eq:
  "defined_pairs get ents = map (\<lambda>e. (e, the (get e))) (filter (\<lambda>e. get e \<noteq> None) ents)"
  unfolding defined_pairs_def by (induction ents) (auto split: option.splits)

lemma defined_pairs_mem: "(e, v) \<in> set (defined_pairs get ents) \<Longrightarrow> get e = Some v \<and> e \<in> set ents"
  unfolding defined_pairs_eq by auto

lemma sorted_lengths [simp]:
  "length (sorted_entities get ents) = length (defined_pairs get ents)"
  "length (sorted_values get ents) = length (defined_pairs get ents)"
  by (simp_all add: sorted_entities_def sorted_values_def)

lemma sorted_values_sorted: "sorted (sorted_values get ents)"
  unfolding sorted_values_def by (rule sorted_sort_key)

lemma sorted_nth_get:
  assumes "i < length (defined_pairs get ents)"
  shows "get (sorted_entities get ents ! i) = Some (sorted_values get ents ! i)"
    and "sorted_entities get ents ! i \<in> set ents"
proof -
  let ?sp = "sort_key snd (defined_pairs get ents)"
  from assms have "?sp ! i \<in> set ?sp" by (intro nth_mem) simp
  then have "(fst (?sp ! i), snd (?sp ! i)) \<in> set (defined_pairs get ents)" by simp
  from defined_pairs_mem [OF this] assms
  show "get (sorted_entities get ents ! i) = Some (sorted_values get ents ! i)"
    and "sorted_entities get ents ! i \<in> set ents"
    by (simp_all add: sorted_entities_def sorted_values_def)
qed

lemma sorted_entities_mset:
  "mset (sorted_entities get ents) + mset (undefined_entities get ents) = mset ents"
proof -
  have "mset (sorted_entities get ents) = mset (map fst (defined_pairs get ents))"
    unfolding sorted_entities_def by (metis mset_map mset_sort)
  also have "map fst (defined_pairs get ents) = filter (\<lambda>e. get e \<noteq> None) ents"
    unfolding defined_pairs_eq by (simp add: comp_def)
  finally show ?thesis
    unfolding undefined_entities_def by (simp add: add.commute)
qed

lemma QuantitativeFeature_split_unfold:
  "QuantitativeFeature_split get ents =
     (if \<not> 2 \<le> length ents then Inl AssertionError
      else if defined_pairs get ents = [] then Inl InvalidSplit
      else (case qf_scan (sorted_entities get ents) (sorted_values get ents)
                   [1..<length (defined_pairs get ents)] (sorted_values get ents ! 0) None of
              Inl x \<Rightarrow> Inl x
            | Inr None \<Rightarrow> Inl InvalidSplit
            | Inr (Some (minsplit, m)) \<Rightarrow>
                Inr (m, AInt (sorted_values get ents ! minsplit),
                     [(BStr ''lt'', take minsplit (sorted_entities get ents)),
                      (BStr ''ge'', drop minsplit (sorted_entities get ents))]
                     @ (if undefined_entities get ents \<noteq> []
                        then [(BStr ''un'', undefined_entities get ents)] else []))))"
  unfolding QuantitativeFeature_split_def defined_pairs_def sorted_entities_def sorted_values_def
    undefined_entities_def
  by (simp add: Let_def)

lemma qf_scan_top:
  "\<exists>r. qf_scan (sorted_entities get ents) (sorted_values get ents)
          [1..<length (defined_pairs get ents)] (sorted_values get ents ! 0) None = Inr r \<and>
       qf_post (sorted_entities get ents) (sorted_values get ents) 1 (length (defined_pairs get ents)) None r"
  using qf_scan_post [of 1 "length (defined_pairs get ents)" "sorted_entities get ents"
      "sorted_values get ents" None]
  by simp

lemma is_cut_iff:
  "is_cut (sorted_values get ents) j \<longleftrightarrow>
   1 \<le> j \<and> j < length (defined_pairs get ents) \<and>
   sorted_values get ents ! (j - 1) \<noteq> sorted_values get ents ! j"
  by (auto simp: is_cut_def)

lemma QuantitativeFeature_split_cases:
  assumes "2 \<le> length ents"
  shows "QuantitativeFeature_split get ents = Inl InvalidSplit \<or>
         (\<exists>r. QuantitativeFeature_split get ents = Inr r)"
proof -
  from qf_scan_top [of get ents] obtain r where
    "qf_scan (sorted_entities get ents) (sorted_values get ents)
          [1..<length (defined_pairs get ents)] (sorted_values get ents ! 0) None = Inr r" by blast
  with assms show ?thesis
    by (cases r) (auto simp: QuantitativeFeature_split_unfold)
qed

lemma QuantitativeFeature_split_parts:
  assumes "QuantitativeFeature_split get ents = Inr (etp, a, parts)"
  shows "\<exists>i. is_cut (sorted_values get ents) i \<and>
           a = AInt (sorted_values get ents ! i) \<and>
           etp = wavg (sorted_entities get ents) i \<and>
           (\<forall>j. is_cut (sorted_values get ents) j \<longrightarrow> etp \<le> wavg (sorted_entities get ents) j) \<and>
           parts = [(BStr ''lt'', take i (sorted_entities get ents)),
                    (BStr ''ge'', drop i (sorted_entities get ents))]
                   @ (if undefined_entities get ents \<noteq> []
                      then [(BStr ''un'', undefined_entities get ents)] else [])"
proof -
  from qf_scan_top [of get ents] obtain r where
    r: "qf_scan (sorted_entities get ents) (sorted_values get ents)
          [1..<length (defined_pairs get ents)] (sorted_values get ents ! 0) None = Inr r"
    and post: "qf_post (sorted_entities get ents) (sorted_values get ents) 1
          (length (defined_pairs get ents)) None r" by blast
  from assms r obtain i where
    ri: "r = Some (i, etp)" and a: "a = AInt (sorted_values get ents ! i)"
    and parts: "parts = [(BStr ''lt'', take i (sorted_entities get ents)),
                    (BStr ''ge'', drop i (sorted_entities get ents))]
                   @ (if undefined_entities get ents \<noteq> []
                      then [(BStr ''un'', undefined_entities get ents)] else [])"
    by (cases r) (auto simp: QuantitativeFeature_split_unfold split: if_splits)
  from post ri have "is_cut (sorted_values get ents) i"
    and "etp = wavg (sorted_entities get ents) i"
    and "\<forall>j. is_cut (sorted_values get ents) j \<longrightarrow> etp \<le> wavg (sorted_entities get ents) j"
    unfolding qf_post_def is_cut_iff by auto
  with a parts show ?thesis by blast
qed

lemma QuantitativeFeature_split_succeeds:
  assumes "2 \<le> length ents" and "is_cut (sorted_values get ents) j"
  shows "\<exists>r. QuantitativeFeature_split get ents = Inr r"
proof -
  from qf_scan_top [of get ents] obtain r where
    r: "qf_scan (sorted_entities get ents) (sorted_values get ents)
          [1..<length (defined_pairs get ents)] (sorted_values get ents ! 0) None = Inr r"
    and post: "qf_post (sorted_entities get ents) (sorted_values get ents) 1
          (length (defined_pairs get ents)) None r" by blast
  from assms(2) have ne: "defined_pairs get ents \<noteq> []" by (auto simp: is_cut_iff)
  from post assms(2) obtain i m where "r = Some (i, m)"
    unfolding qf_post_def is_cut_iff by (cases r) auto
  with r assms(1) ne show ?thesis by (simp add: QuantitativeFeature_split_unfold)
qed

lemma proper_add: "M = A + B \<Longrightarrow> B \<noteq> {#} \<Longrightarrow> A \<subset># M"
  by (simp add: subset_mset.less_le)

lemma QuantitativeFeature_split_generic:
  assumes "QuantitativeFeature_split get ents = Inr (etp, a, parts)"
  shows "2 \<le> length parts" and "distinct (map fst parts)"
    and "\<forall>ves \<in> set parts. mset (snd ves) \<subset># mset ents \<and> snd ves \<noteq> [] \<and>
           (\<forall>e \<in> set (snd ves). QuantitativeFeature_ident get a e = Inr (fst ves))"
proof -
  let ?es = "sorted_entities get ents" and ?vs = "sorted_values get ents"
    and ?un = "undefined_entities get ents"
  let ?n = "length (defined_pairs get ents)"
  from QuantitativeFeature_split_parts [OF assms] obtain i where
    cut: "is_cut ?vs i" and a: "a = AInt (?vs ! i)"
    and parts: "parts = [(BStr ''lt'', take i ?es), (BStr ''ge'', drop i ?es)]
                   @ (if ?un \<noteq> [] then [(BStr ''un'', ?un)] else [])"
    by blast
  from cut have i: "0 < i" "i < ?n" and ne: "?vs ! (i - 1) \<noteq> ?vs ! i" by (auto simp: is_cut_iff)
  show "2 \<le> length parts" and "distinct (map fst parts)" using parts by simp_all
  have es_ne: "?es \<noteq> []"
    using i sorted_lengths(1) [of get ents] by (metis list.size(3) not_less_zero)
  have t: "take i ?es \<noteq> []" using i es_ne by simp
  have d: "drop i ?es \<noteq> []" using i by simp
  have all: "mset ents = mset (take i ?es) + mset (drop i ?es) + mset ?un"
    using sorted_entities_mset [of get ents] by (metis append_take_drop_id mset_append)
  have p1: "mset (take i ?es) \<subset># mset ents"
    by (rule proper_add [where B = "mset (drop i ?es) + mset ?un"]) (use all d in \<open>simp_all add: ac_simps\<close>)
  have p2: "mset (drop i ?es) \<subset># mset ents"
    by (rule proper_add [where B = "mset (take i ?es) + mset ?un"]) (use all t in \<open>simp_all add: ac_simps\<close>)
  have p3: "mset ?un \<subset># mset ents"
    by (rule proper_add [where B = "mset (take i ?es) + mset (drop i ?es)"]) (use all t in \<open>simp_all add: ac_simps\<close>)
  have lt: "?vs ! (i - 1) < ?vs ! i"
  proof -
    have "?vs ! (i - 1) \<le> ?vs ! i"
      using sorted_values_sorted [of get ents] i by (intro sorted_nth_mono) simp_all
    with ne show ?thesis by simp
  qed
  have i1: "QuantitativeFeature_ident get a e = Inr (BStr ''lt'')" if "e \<in> set (take i ?es)" for e
  proof -
    from that obtain j where j: "j < i" "e = ?es ! j"
      by (auto simp: in_set_conv_nth)
    with i have g: "get e = Some (?vs ! j)" by (simp add: sorted_nth_get)
    have "?vs ! j \<le> ?vs ! (i - 1)"
      using sorted_values_sorted [of get ents] i j by (intro sorted_nth_mono) simp_all
    with lt have "?vs ! j < ?vs ! i" by simp
    with g a show ?thesis by (simp add: QuantitativeFeature_ident_def)
  qed
  have i2: "QuantitativeFeature_ident get a e = Inr (BStr ''ge'')" if "e \<in> set (drop i ?es)" for e
  proof -
    from that obtain k where "k < ?n - i" "e = ?es ! (i + k)"
      by (auto simp: in_set_conv_nth)
    then have k: "i + k < ?n" "e = ?es ! (i + k)" by simp_all
    then have g: "get e = Some (?vs ! (i + k))" by (simp add: sorted_nth_get)
    have "?vs ! i \<le> ?vs ! (i + k)"
      using sorted_values_sorted [of get ents] k by (intro sorted_nth_mono) simp_all
    with g a show ?thesis by (simp add: QuantitativeFeature_ident_def)
  qed
  have i3: "QuantitativeFeature_ident get a e = Inr (BStr ''un'')" if "e \<in> set ?un" for e
    using that by (simp add: QuantitativeFeature_ident_def undefined_entities_def)
  show "\<forall>ves \<in> set parts. mset (snd ves) \<subset># mset ents \<and> snd ves \<noteq> [] \<and>
           (\<forall>e \<in> set (snd ves). QuantitativeFeature_ident get a e = Inr (fst ves))"
    unfolding parts using p1 p2 p3 t d i1 i2 i3 by simp
qed

section \<open>Every split yields at least two non-empty proper parts\<close>

lemma split_generic:
  assumes "split ord feat ents = Inr (etp, a, parts)"
  shows "2 \<le> length parts" and "distinct (map fst parts)"
    and "\<forall>ves \<in> set parts. mset (snd ves) \<subset># mset ents \<and> snd ves \<noteq> [] \<and>
           (\<forall>e \<in> set (snd ves). ident feat a e = Inr (fst ves))"
proof -
  have "2 \<le> length parts \<and> distinct (map fst parts) \<and>
      (\<forall>ves \<in> set parts. mset (snd ves) \<subset># mset ents \<and> snd ves \<noteq> [] \<and>
           (\<forall>e \<in> set (snd ves). ident feat a e = Inr (fst ves)))"
  proof (cases feat)
    case (DiscreteFeature attr)
    with assms have "DiscreteFeature_split (DiscreteFeature_get attr) ents = Inr (etp, a, parts)"
      by simp
    from DiscreteFeature_split_parts [OF this] DiscreteFeature show ?thesis by simp
  next
    case (DiscreteFeatureOne attr index)
    with assms have "DiscreteFeature_split (DiscreteFeatureOne_get attr index) ents = Inr (etp, a, parts)"
      by simp
    from DiscreteFeature_split_parts [OF this] DiscreteFeatureOne show ?thesis by simp
  next
    case (MembershipFeature attr)
    with assms have "MembershipFeature_split ord (MembershipFeature_get attr) ents = Inr (etp, a, parts)"
      by simp
    from MembershipFeature_split_generic [OF this] MembershipFeature show ?thesis by simp
  next
    case (MembershipFeatureOne attr nmems)
    with assms have "MembershipFeature_split ord (MembershipFeatureOne_get attr nmems) ents = Inr (etp, a, parts)"
      by simp
    from MembershipFeature_split_generic [OF this] MembershipFeatureOne show ?thesis by simp
  next
    case (QuantitativeFeature attr)
    with assms have "QuantitativeFeature_split (QuantitativeFeature_get attr) ents = Inr (etp, a, parts)"
      by simp
    from QuantitativeFeature_split_generic [OF this] QuantitativeFeature show ?thesis by simp
  qed
  then show "2 \<le> length parts" and "distinct (map fst parts)"
    and "\<forall>ves \<in> set parts. mset (snd ves) \<subset># mset ents \<and> snd ves \<noteq> [] \<and>
           (\<forall>e \<in> set (snd ves). ident feat a e = Inr (fst ves))"
    by blast+
qed

lemma split_cases:
  "2 \<le> length ents \<Longrightarrow>
   split ord feat ents = Inl InvalidSplit \<or> (\<exists>r. split ord feat ents = Inr r)"
  by (cases feat)
    (simp_all del: split_paired_Ex
      add: DiscreteFeature_split_cases MembershipFeature_split_cases QuantitativeFeature_split_cases)

lemma split_short:
  "\<not> 2 \<le> length ents \<Longrightarrow> split ord feat ents = Inl AssertionError"
  by (cases feat)
    (simp_all add: DiscreteFeature_split_def MembershipFeature_split_def QuantitativeFeature_split_def)

lemma mset_proper_length: "mset xs \<subset># mset ys \<Longrightarrow> length xs < length ys"
  by (metis mset_subset_size size_mset)

section \<open>Termination of \<open>build\<close>\<close>

lemma select_result:
  "select ord feats ents st = Inr (Some ((f, a, sp), m)) \<Longrightarrow>
   st = Some ((f, a, sp), m) \<or> (f \<in> set feats \<and> split ord f ents = Inr (m, a, sp))"
proof (induction feats arbitrary: st)
  case Nil
  then show ?case by simp
next
  case (Cons feat feats)
  show ?case
  proof (cases "split ord feat ents")
    case (Inl x)
    with Cons.prems have "select ord feats ents st = Inr (Some ((f, a, sp), m))"
      by (cases x) simp_all
    from Cons.IH [OF this] show ?thesis by auto
  next
    case (Inr r)
    obtain etp a' sp' where r: "r = (etp, a', sp')" by (cases r)
    from Cons.prems Inr r obtain st' where
      st': "select ord feats ents st' = Inr (Some ((f, a, sp), m))"
      and alt: "st' = st \<or> st' = Some ((feat, a', sp'), etp)"
      by (auto split: if_splits)
    from Cons.IH [OF st'] alt Inr r show ?thesis by auto
  qed
qed

lemma maxlen_less: "\<forall>ves \<in> set sp. length (snd ves) < n \<Longrightarrow> 0 < n \<Longrightarrow> maxlen sp < n"
  by (induction sp rule: maxlen.induct) auto

lemma select_maxlen:
  assumes "select ord feats ents None = Inr (Some ((f, a, sp), m))"
  shows "maxlen sp < length ents"
proof -
  from select_result [OF assms] have s: "split ord f ents = Inr (m, a, sp)" by simp
  from split_generic(3) [OF s] have "\<forall>ves \<in> set sp. length (snd ves) < length ents"
    by (auto dest: mset_proper_length)
  moreover from split_generic(1,3) [OF s] have "0 < length ents"
    by (cases sp) (auto dest: mset_proper_length)
  ultimately show ?thesis by (rule maxlen_less)
qed

termination build
  apply (relation "inv_image (less_than <*lex*> less_than)
     (\<lambda>x. case x of Inl (ord, b, ents) \<Rightarrow> (length ents + 1, 0)
                   | Inr (ord, b, sp, ch) \<Rightarrow> (maxlen sp + 1, length sp + 1))")
      apply (auto simp: select_maxlen)
  done

declare build.simps(1) [simp del]

section \<open>Concrete runs\<close>

lemma entetp_single [simp]: "entetp [e] = Inr 0"
  by (simp add: entetp_def countkeys_def calcetp_def)

lemma split_type_ab:
  "split ord (DiscreteFeature ''type'') [ent_a, ent_b] =
     Inr (0, ANone, [(BStr ''block'', [ent_a]), (BStr ''line'', [ent_b])])"
  by (simp add: DiscreteFeature_split_def DiscreteFeature_get_def ent_a_def ent_b_def)

lemma split_type_a:
  "split ord (DiscreteFeature ''type'') [ent_a] = Inl AssertionError"
  by (simp add: DiscreteFeature_split_def)

section \<open>Properties of the splits\<close>

text \<open>
  C2. When the split of a feature succeeds with \<open>(weightedEntropy, splitArg, partitions)\<close>,
  every entity \<open>e\<close> of a partition \<open>(branchValue, subset)\<close> has
  \<open>ident(splitArg, e) = branchValue\<close>, for each of the five feature variants.
\<close>

theorem ident_agrees_with_split:
  assumes "split ord feat ents = Inr (etp, a, parts)"
    and "(v, es) \<in> set parts" and "e \<in> set es"
  shows "ident feat a e = Inr v"
  using split_generic(3) [OF assms(1)] assms(2,3) by fastforce

theorem ident_agrees_with_split_witness:
  "split by_eid (DiscreteFeature ''type'') [ent_a, ent_b] =
     Inr (0, ANone, [(BStr ''block'', [ent_a]), (BStr ''line'', [ent_b])]) \<and>
   ident (DiscreteFeature ''type'') ANone ent_b = Inr (BStr ''line'')"
proof -
  have h: "split by_eid (DiscreteFeature ''type'') [ent_a, ent_b] =
     Inr (0, ANone, [(BStr ''block'', [ent_a]), (BStr ''line'', [ent_b])])"
    by (rule split_type_ab)
  from ident_agrees_with_split [OF h, of "BStr ''line''" "[ent_b]" ent_b] h
  show ?thesis by simp
qed

text \<open>
  C4, as the code has it. On fewer than two entities every split fails its assertion
  \<open>2 <= len(ents)\<close>; on two or more it either signals \<open>InvalidSplit\<close> or returns at
  least two partitions, none of them empty, and fails in no other way.
\<close>

theorem split_failures:
  "(\<not> 2 \<le> length ents \<longrightarrow> split ord feat ents = Inl AssertionError) \<and>
   (2 \<le> length ents \<longrightarrow>
      split ord feat ents = Inl InvalidSplit \<or>
      (\<exists>etp a parts. split ord feat ents = Inr (etp, a, parts) \<and> 2 \<le> length parts \<and>
         (\<forall>ves \<in> set parts. snd ves \<noteq> [])))"
proof (intro conjI impI)
  assume "\<not> 2 \<le> length ents"
  then show "split ord feat ents = Inl AssertionError" by (rule split_short)
next
  assume "2 \<le> length ents"
  from split_cases [OF this, of ord feat]
  show "split ord feat ents = Inl InvalidSplit \<or>
      (\<exists>etp a parts. split ord feat ents = Inr (etp, a, parts) \<and> 2 \<le> length parts \<and>
         (\<forall>ves \<in> set parts. snd ves \<noteq> []))"
  proof
    assume "split ord feat ents = Inl InvalidSplit"
    then show ?thesis by simp
  next
    assume "\<exists>r. split ord feat ents = Inr r"
    then obtain etp a parts where s: "split ord feat ents = Inr (etp, a, parts)"
      by (metis prod.exhaust)
    from split_generic(1,3) [OF s] s show ?thesis by auto
  qed
qed

theorem split_failures_witness:
  "\<not> 2 \<le> length [ent_a] \<and> split by_eid (DiscreteFeature ''type'') [ent_a] = Inl AssertionError \<and>
   2 \<le> length [ent_a, ent_b] \<and>
   split by_eid (DiscreteFeature ''type'') [ent_a, ent_b] \<noteq> Inl AssertionError"
  using split_failures [of "[ent_a]" by_eid "DiscreteFeature ''type''"]
    split_failures [of "[ent_a, ent_b]" by_eid "DiscreteFeature ''type''"]
  by auto

theorem split_one_entity_counterexample:
  "length [ent_a] < 2 \<and> split by_eid (DiscreteFeature ''type'') [ent_a] \<noteq> Inl InvalidSplit"
  using split_type_a [of by_eid] by simp

section \<open>Classification\<close>

lemma ident_numeric:
  "(case feat of
      QuantitativeFeature _ \<Rightarrow> (case a of AInt _ \<Rightarrow> True | _ \<Rightarrow> False)
    | _ \<Rightarrow> True) \<Longrightarrow> \<exists>v. ident feat a e = Inr v"
  by (cases feat; cases a)
    (auto simp: QuantitativeFeature_ident_def split: option.splits)

lemma test_numeric: "numeric_thresholds t \<Longrightarrow> \<exists>l. test t e = Inr l"
proof (induction t e rule: test.induct)
  case (1 k e)
  then show ?case by simp
next
  case (2 feature a dflt children e)
  from 2(2) ident_numeric [where feat = feature and a = a and e = e] obtain v where v: "ident feature a e = Inr v"
    by auto
  show ?case
  proof (cases "map_of children v")
    case None
    with v show ?thesis by simp
  next
    case (Some branch)
    then have "(v, branch) \<in> set children" by (rule map_of_SomeD)
    with 2(2) have "numeric_thresholds branch" by auto
    from 2(1) [OF v Some this] obtain l where "test branch e = Inr l" ..
    with v Some show ?thesis by simp
  qed
qed

section \<open>The scoring report\<close>

lemma score_loop_ok:
  "counts_ok c \<Longrightarrow> score_loop t ents c = Inr c' \<Longrightarrow>
   counts_ok c' \<and>
   fst ` set (correct c') = fst ` set (correct c) \<union> {k. \<exists>e \<in> set ents. key e = k \<and> test t e = Inr k}"
proof (induction ents arbitrary: c)
  case Nil
  then show ?case by simp
next
  case (Cons e ents)
  from Cons.prems(2) obtain k where k: "test t e = Inr k"
    by (auto simp: Let_def split: sum.splits)
  let ?c2 = "c\<lparr>actual := inc_key (key e) (actual c), resp := inc_key k (resp c)\<rparr>"
  show ?case
  proof (cases "key e = k")
    case True
    let ?c3 = "?c2\<lparr>correct := inc_key k (correct c)\<rparr>"
    from Cons.prems(2) k True have run: "score_loop t ents ?c3 = Inr c'"
      by (simp add: Let_def)
    have ok: "counts_ok ?c3"
      using Cons.prems(1) True
      by (auto simp: counts_ok_def inc_key_distinct cnt_inc_key dest: inc_key_pos
          intro: le_SucI)
    from Cons.IH [OF ok run] True k show ?thesis
      by (auto simp: inc_key_keys)
  next
    case False
    from Cons.prems(2) k False have run: "score_loop t ents ?c2 = Inr c'"
      by (simp add: Let_def)
    have ok: "counts_ok ?c2"
      using Cons.prems(1)
      by (auto simp: counts_ok_def cnt_inc_key intro: le_SucI)
    from Cons.IH [OF ok run] False k show ?thesis by auto
  qed
qed

lemma cnt_Some: "0 < cnt d k \<Longrightarrow> map_of d k = Some (cnt d k)"
  by (cases "map_of d k") (auto simp: cnt_def)

lemma report_line_ok:
  assumes "counts_ok c" and "(k, v) \<in> set (correct c)"
  shows "1 \<le> v \<and> v \<le> cnt (resp c) k \<and> v \<le> cnt (actual c) k \<and>
         (\<exists>p r f. report_line c (k, v) = Inr (k, p, r, f) \<and>
            p = real v / real (cnt (resp c) k) \<and> r = real v / real (cnt (actual c) k))"
proof -
  from assms have v: "cnt (correct c) k = v" by (simp add: counts_ok_def cnt_mem)
  from assms have "v \<noteq> 0" by (force simp: counts_ok_def)
  then have v1: "1 \<le> v" by simp
  from assms(1) v have le: "v \<le> cnt (resp c) k" "v \<le> cnt (actual c) k"
    by (auto simp: counts_ok_def)
  with v1 have pos: "0 < cnt (resp c) k" "0 < cnt (actual c) k" by simp_all
  have "0 < real v / real (cnt (resp c) k)" "0 < real v / real (cnt (actual c) k)"
    using v1 pos by simp_all
  then have "real v / real (cnt (resp c) k) + real v / real (cnt (actual c) k) \<noteq> 0" by simp
  then show ?thesis
    using v1 le pos cnt_Some [OF pos(1)] cnt_Some [OF pos(2)]
    by (simp add: report_line_def dict_get_def py_div_def)
qed

lemma report_lines_ok:
  "counts_ok c \<Longrightarrow> set kvs \<subseteq> set (correct c) \<Longrightarrow>
   \<exists>ls. report_lines c kvs = Inr ls \<and> map fst ls = map fst kvs"
proof (induction kvs)
  case Nil
  then show ?case by simp
next
  case (Cons kv kvs)
  obtain k v where kv: "kv = (k, v)" by (cases kv)
  with Cons.prems have "(k, v) \<in> set (correct c)" by simp
  from report_line_ok [OF Cons.prems(1) this] obtain p r f where
    "report_line c (k, v) = Inr (k, p, r, f)" by blast
  moreover from Cons have "\<exists>ls. report_lines c kvs = Inr ls \<and> map fst ls = map fst kvs" by simp
  ultimately show ?case using kv by auto
qed

text \<open>
  C10. When the classification of every entity returns, the report has exactly one line
  for each label with at least one correctly classified entity, and none for any other
  label; for every such label the number of correct predictions is at least 1 and at most
  both the predicted and the actual count, so the divisions of the line are defined.
\<close>

theorem report_only_correct_labels:
  assumes "score_loop t ents \<lparr>correct = [], actual = [], resp = []\<rparr> = Inr c"
  shows "\<exists>ls. score t ents = Inr ls \<and> distinct (map fst ls) \<and>
           set (map fst ls) = {k. \<exists>e \<in> set ents. key e = k \<and> test t e = Inr k} \<and>
           (\<forall>kv \<in> set (correct c).
              1 \<le> snd kv \<and> snd kv \<le> cnt (resp c) (fst kv) \<and> snd kv \<le> cnt (actual c) (fst kv))"
proof -
  have ok0: "counts_ok \<lparr>correct = [], actual = [], resp = []\<rparr>"
    by (simp add: counts_ok_def cnt_def)
  from score_loop_ok [OF ok0 assms]
  have ok: "counts_ok c"
    and keys: "fst ` set (correct c) = {k. \<exists>e \<in> set ents. key e = k \<and> test t e = Inr k}"
    by simp_all
  from report_lines_ok [OF ok, of "correct c"] obtain ls where
    ls: "report_lines c (correct c) = Inr ls" "map fst ls = map fst (correct c)" by auto
  have "score t ents = Inr ls" using assms ls(1) by (simp add: score_def)
  moreover have "distinct (map fst ls)" using ok ls(2) by (simp add: counts_ok_def)
  moreover have "set (map fst ls) = {k. \<exists>e \<in> set ents. key e = k \<and> test t e = Inr k}"
    using keys ls(2) by simp
  moreover have "\<forall>kv \<in> set (correct c).
      1 \<le> snd kv \<and> snd kv \<le> cnt (resp c) (fst kv) \<and> snd kv \<le> cnt (actual c) (fst kv)"
    using report_line_ok [OF ok] by force
  ultimately show ?thesis by blast
qed

theorem report_only_correct_labels_witness:
  "score_loop (TreeLeaf ''A'') [ent_a, ent_b] \<lparr>correct = [], actual = [], resp = []\<rparr> =
     Inr \<lparr>correct = [(''A'', 1)], actual = [(''A'', 1), (''B'', 1)], resp = [(''A'', 2)]\<rparr> \<and>
   score (TreeLeaf ''A'') [ent_a, ent_b] = Inr [(''A'', 1 / 2, 1, 2 / 3)]"
proof -
  have h: "score_loop (TreeLeaf ''A'') [ent_a, ent_b] \<lparr>correct = [], actual = [], resp = []\<rparr> =
     Inr \<lparr>correct = [(''A'', 1)], actual = [(''A'', 1), (''B'', 1)], resp = [(''A'', 2)]\<rparr>"
    by (simp add: ent_a_def ent_b_def)
  from report_only_correct_labels [OF h] h show ?thesis
    by (simp add: score_def report_line_def dict_get_def py_div_def)
qed

section \<open>The quantitative example\<close>

lemma key_vals [simp]:
  "key val1 = ''A''" "key val2 = ''A''" "key val2' = ''A''" "key val5 = ''B''" "key val9 = ''B''"
  by (simp_all add: val1_def val2_def val2'_def val5_def val9_def)

lemma get_vals [simp]:
  "QuantitativeFeature_get ''value'' val1 = Some 1"
  "QuantitativeFeature_get ''value'' val2 = Some 2"
  "QuantitativeFeature_get ''value'' val2' = Some 2"
  "QuantitativeFeature_get ''value'' val5 = Some 5"
  "QuantitativeFeature_get ''value'' val9 = Some 9"
  by (simp_all add: QuantitativeFeature_get_def val1_def val2_def val2'_def val5_def val9_def)

lemma etp_AAA: "entetp [val1, val2, val2'] = Inr 0"
  by (simp add: entetp_def countkeys_def calcetp_def)

lemma etp_BB: "entetp [val5, val9] = Inr 0"
  by (simp add: entetp_def countkeys_def calcetp_def)

lemma etp_AABB: "entetp [val2, val2', val5, val9] = Inr 1"
  by (simp add: entetp_def countkeys_def calcetp_def)

lemma etp_AAAB: "\<exists>h. entetp [val1, val2, val2', val5] = Inr h \<and> 0 \<le> h"
  using entetp_nonempty [of "[val1, val2, val2', val5]"] entetp_nonneg [of "[val1, val2, val2', val5]"]
  by simp

lemma example_scan:
  "qf_scan [val1, val2, val2', val5, val9] [1, 2, 2, 5, 9] [1, 2, 3, 4] 1 None = Inr (Some (3, 0))"
proof -
  from etp_AAAB obtain h where h: "entetp [val1, val2, val2', val5] = Inr h" "0 \<le> h" by blast
  have "\<not> 4 * h / 5 < 0" using h(2) by simp
  then show ?thesis
    by (simp add: etp_AAA etp_BB etp_AABB h(1) Let_def)
qed

lemma example_split:
  "split ord (QuantitativeFeature ''value'') [val1, val2, val2', val5, val9] =
     Inr (0, AInt 5, [(BStr ''lt'', [val1, val2, val2']), (BStr ''ge'', [val5, val9])])"
proof -
  let ?g = "QuantitativeFeature_get ''value''" and ?ents = "[val1, val2, val2', val5, val9]"
  have dp: "defined_pairs ?g ?ents = [(val1, 1), (val2, 2), (val2', 2), (val5, 5), (val9, 9)]"
    by (simp add: defined_pairs_def)
  have se: "sorted_entities ?g ?ents = ?ents" by (simp add: sorted_entities_def dp)
  have sv: "sorted_values ?g ?ents = [1, 2, 2, 5, 9]" by (simp add: sorted_values_def dp)
  have un: "undefined_entities ?g ?ents = []" by (simp add: undefined_entities_def)
  have len: "length (defined_pairs ?g ?ents) = 5" by (simp add: dp)
  have v0: "sorted_values ?g ?ents ! 0 = 1" by (simp add: sv)
  have upt: "[1..<5] = [1, 2, 3, 4]" by (simp add: upt_rec)
  have scan: "qf_scan (sorted_entities ?g ?ents) (sorted_values ?g ?ents)
      [1..<length (defined_pairs ?g ?ents)] (sorted_values ?g ?ents ! 0) None = Inr (Some (3, 0))"
    unfolding len v0 unfolding upt se sv by (rule example_scan)
  show ?thesis
    by (simp only: split.simps QuantitativeFeature_split_unfold scan) (simp add: dp se sv un)
qed

lemma example_sorted_values:
  "sorted_values (QuantitativeFeature_get ''value'') [val1, val2, val2', val5, val9] = [1, 2, 2, 5, 9]"
  by (simp add: sorted_values_def defined_pairs_def)

lemma example_cut: "is_cut (sorted_values (QuantitativeFeature_get ''value'') [val1, val2, val2', val5, val9]) 3"
  by (simp add: example_sorted_values is_cut_def)

lemma get_und [simp]:
  "QuantitativeFeature_get ''value'' und1 = None" "QuantitativeFeature_get ''value'' und2 = None"
  by (simp_all add: QuantitativeFeature_get_def und1_def und2_def)

lemma split_one_value:
  "split ord (QuantitativeFeature ''value'') [val1, und1, und2] = Inl InvalidSplit"
  by (simp add: QuantitativeFeature_split_def Let_def)

lemma split_equal_values:
  "split ord (QuantitativeFeature ''value'') [val2, val2'] = Inl InvalidSplit"
  by (simp add: QuantitativeFeature_split_def Let_def)

lemma QuantitativeFeature_split_no_cut:
  assumes "2 \<le> length ents" and "\<not> (\<exists>j. is_cut (sorted_values get ents) j)"
  shows "QuantitativeFeature_split get ents = Inl InvalidSplit"
proof -
  from QuantitativeFeature_split_cases [OF assms(1), of get]
  show ?thesis
  proof
    assume "\<exists>r. QuantitativeFeature_split get ents = Inr r"
    then obtain etp a parts where "QuantitativeFeature_split get ents = Inr (etp, a, parts)"
      by (metis prod.exhaust)
    from QuantitativeFeature_split_parts [OF this] assms(2) show ?thesis by blast
  qed
qed

text \<open>
  C3, as the code has it. On at least two entities whose defined values are not all
  equal (the sorted values have a cut point, an index whose value differs from the one
  before it), the quantitative split succeeds: it sorts the entities with a defined value
  by that value, takes as threshold the value at a cut point whose weighted entropy is
  minimal among all cut points, returns the entities below and from the cut, and appends
  the entities without a value as a separate \<open>'un'\<close> partition, so that no entity is
  dropped. On at least two entities without a cut point it signals \<open>InvalidSplit\<close> and
  returns no partition, and on fewer than two it fails its assertion. On the entities with
  values 1, 2, 2, 5, 9 and labels A, A, A, B, B the threshold is 5 and the weighted
  entropy 0.
\<close>

theorem QuantitativeFeature_split_spec:
  "(2 \<le> length ents \<and> (\<exists>j. is_cut (sorted_values get ents) j) \<longrightarrow>
      sorted (sorted_values get ents) \<and>
      (\<forall>i < length (sorted_entities get ents).
         get (sorted_entities get ents ! i) = Some (sorted_values get ents ! i)) \<and>
      mset (sorted_entities get ents) + mset (undefined_entities get ents) = mset ents \<and>
      (\<exists>i. is_cut (sorted_values get ents) i \<and>
           (\<forall>j. is_cut (sorted_values get ents) j \<longrightarrow>
              wavg (sorted_entities get ents) i \<le> wavg (sorted_entities get ents) j) \<and>
           QuantitativeFeature_split get ents =
             Inr (wavg (sorted_entities get ents) i, AInt (sorted_values get ents ! i),
                  [(BStr ''lt'', take i (sorted_entities get ents)),
                   (BStr ''ge'', drop i (sorted_entities get ents))]
                  @ (if undefined_entities get ents \<noteq> []
                     then [(BStr ''un'', undefined_entities get ents)] else [])))) \<and>
   (2 \<le> length ents \<and> \<not> (\<exists>j. is_cut (sorted_values get ents) j) \<longrightarrow>
      QuantitativeFeature_split get ents = Inl InvalidSplit) \<and>
   (\<not> 2 \<le> length ents \<longrightarrow> QuantitativeFeature_split get ents = Inl AssertionError) \<and>
   split ord (QuantitativeFeature ''value'') [val1, val2, val2', val5, val9] =
     Inr (0, AInt 5, [(BStr ''lt'', [val1, val2, val2']), (BStr ''ge'', [val5, val9])])"
proof (intro conjI impI)
  assume h: "2 \<le> length ents \<and> (\<exists>j. is_cut (sorted_values get ents) j)"
  show "sorted (sorted_values get ents)" by (rule sorted_values_sorted)
  show "\<forall>i < length (sorted_entities get ents).
         get (sorted_entities get ents ! i) = Some (sorted_values get ents ! i)"
    by (simp add: sorted_nth_get)
  show "mset (sorted_entities get ents) + mset (undefined_entities get ents) = mset ents"
    by (rule sorted_entities_mset)
  from h QuantitativeFeature_split_succeeds [of ents get] obtain etp a parts where
    s: "QuantitativeFeature_split get ents = Inr (etp, a, parts)"
    by (metis prod.exhaust)
  from QuantitativeFeature_split_parts [OF s] s
  show "\<exists>i. is_cut (sorted_values get ents) i \<and>
           (\<forall>j. is_cut (sorted_values get ents) j \<longrightarrow>
              wavg (sorted_entities get ents) i \<le> wavg (sorted_entities get ents) j) \<and>
           QuantitativeFeature_split get ents =
             Inr (wavg (sorted_entities get ents) i, AInt (sorted_values get ents ! i),
                  [(BStr ''lt'', take i (sorted_entities get ents)),
                   (BStr ''ge'', drop i (sorted_entities get ents))]
                  @ (if undefined_entities get ents \<noteq> []
                     then [(BStr ''un'', undefined_entities get ents)] else []))"
    by auto
next
  assume "2 \<le> length ents \<and> \<not> (\<exists>j. is_cut (sorted_values get ents) j)"
  then show "QuantitativeFeature_split get ents = Inl InvalidSplit"
    using QuantitativeFeature_split_no_cut by blast
next
  assume "\<not> 2 \<le> length ents"
  then show "QuantitativeFeature_split get ents = Inl AssertionError"
    by (simp add: QuantitativeFeature_split_def)
next
  show "split ord (QuantitativeFeature ''value'') [val1, val2, val2', val5, val9] =
     Inr (0, AInt 5, [(BStr ''lt'', [val1, val2, val2']), (BStr ''ge'', [val5, val9])])"
    by (rule example_split)
qed

theorem QuantitativeFeature_split_spec_witness:
  "2 \<le> length [val1, val2, val2', val5, val9] \<and>
   is_cut (sorted_values (QuantitativeFeature_get ''value'') [val1, val2, val2', val5, val9]) 3 \<and>
   QuantitativeFeature_split (QuantitativeFeature_get ''value'') [val1, val2, val2', val5, val9] =
     Inr (0, AInt 5, [(BStr ''lt'', [val1, val2, val2']), (BStr ''ge'', [val5, val9])]) \<and>
   sorted (sorted_values (QuantitativeFeature_get ''value'') [val1, val2, val2', val5, val9]) \<and>
   2 \<le> length [val2, val2'] \<and>
   QuantitativeFeature_split (QuantitativeFeature_get ''value'') [val2, val2'] = Inl InvalidSplit \<and>
   \<not> 2 \<le> length [val1] \<and>
   QuantitativeFeature_split (QuantitativeFeature_get ''value'') [val1] = Inl AssertionError"
proof -
  have h: "2 \<le> length [val1, val2, val2', val5, val9] \<and>
      (\<exists>j. is_cut (sorted_values (QuantitativeFeature_get ''value'') [val1, val2, val2', val5, val9]) j)"
    using example_cut by auto
  have n: "\<not> 2 \<le> length [val1]" by simp
  have e: "QuantitativeFeature_split (QuantitativeFeature_get ''value'') [val1, val2, val2', val5, val9] =
     Inr (0, AInt 5, [(BStr ''lt'', [val1, val2, val2']), (BStr ''ge'', [val5, val9])])"
    using example_split [of by_eid] by simp
  have q: "QuantitativeFeature_split (QuantitativeFeature_get ''value'') [val2, val2'] = Inl InvalidSplit"
    using split_equal_values [of by_eid] by simp
  from QuantitativeFeature_split_spec [of "[val1, val2, val2', val5, val9]"
      "QuantitativeFeature_get ''value''" by_eid] h
  have "sorted (sorted_values (QuantitativeFeature_get ''value'') [val1, val2, val2', val5, val9])"
    by blast
  moreover from QuantitativeFeature_split_spec [of "[val1]" "QuantitativeFeature_get ''value''" by_eid] n
  have "QuantitativeFeature_split (QuantitativeFeature_get ''value'') [val1] = Inl AssertionError"
    by blast
  ultimately show ?thesis using example_cut e q by simp
qed

theorem split_without_cut_counterexample:
  "QuantitativeFeature_get ''value'' val1 = Some 1 \<and>
   split by_eid (QuantitativeFeature ''value'') [val1, und1, und2] = Inl InvalidSplit \<and>
   QuantitativeFeature_get ''value'' val2 = Some 2 \<and>
   split by_eid (QuantitativeFeature ''value'') [val2, val2'] = Inl InvalidSplit"
  using split_one_value [of by_eid] split_equal_values [of by_eid] by simp

section \<open>The feature selected by \<open>build\<close>\<close>

lemma select_append:
  "select ord (xs @ ys) ents st =
     (case select ord xs ents st of Inl x \<Rightarrow> Inl x | Inr st' \<Rightarrow> select ord ys ents st')"
proof (induction xs arbitrary: st)
  case Nil
  then show ?case by simp
next
  case (Cons f xs)
  show ?case
  proof (cases "split ord f ents")
    case (Inl x)
    then show ?thesis using Cons.IH by (cases x) simp_all
  next
    case (Inr r)
    then show ?thesis using Cons.IH by (cases r) simp
  qed
qed

lemma select_post_skip:
  assumes "select_post ord feats ents r" and "split ord g ents = Inl InvalidSplit"
  shows "select_post ord (feats @ [g]) ents r"
proof (cases r)
  case None
  with assms show ?thesis by (simp add: select_post_def)
next
  case (Some x)
  obtain f a sp m where x: "x = ((f, a, sp), m)" by (metis prod.exhaust)
  from assms(1) Some x obtain i where i: "i < length feats" "feats ! i = f"
    "split ord f ents = Inr (m, a, sp)"
    "\<forall>j < i. \<forall>r'. split ord (feats ! j) ents = Inr r' \<longrightarrow> m < fst r'"
    "\<forall>j < length feats. \<forall>r'. split ord (feats ! j) ents = Inr r' \<longrightarrow> m \<le> fst r'"
    by (auto simp: select_post_def)
  have "\<forall>j < length (feats @ [g]). \<forall>r'. split ord ((feats @ [g]) ! j) ents = Inr r' \<longrightarrow> m \<le> fst r'"
    using i(5) assms(2) by (auto simp: nth_append less_Suc_eq)
  moreover have "\<forall>j < i. \<forall>r'. split ord ((feats @ [g]) ! j) ents = Inr r' \<longrightarrow> m < fst r'"
    using i(1,4) by (auto simp: nth_append)
  moreover have "i < length (feats @ [g])" "(feats @ [g]) ! i = f" using i(1,2) by (simp_all add: nth_append)
  ultimately show ?thesis unfolding select_post_def Some x using i(3) by auto
qed

lemma select_post_keep:
  assumes "select_post ord feats ents (Some ((f, a, sp), m))"
    and "split ord g ents = Inr (e, a', sp')" and "m \<le> e"
  shows "select_post ord (feats @ [g]) ents (Some ((f, a, sp), m))"
proof -
  from assms(1) obtain i where i: "i < length feats" "feats ! i = f"
    "split ord f ents = Inr (m, a, sp)"
    "\<forall>j < i. \<forall>r'. split ord (feats ! j) ents = Inr r' \<longrightarrow> m < fst r'"
    "\<forall>j < length feats. \<forall>r'. split ord (feats ! j) ents = Inr r' \<longrightarrow> m \<le> fst r'"
    by (auto simp: select_post_def)
  have "\<forall>j < length (feats @ [g]). \<forall>r'. split ord ((feats @ [g]) ! j) ents = Inr r' \<longrightarrow> m \<le> fst r'"
    using i(5) assms(2,3) by (auto simp: nth_append less_Suc_eq)
  moreover have "\<forall>j < i. \<forall>r'. split ord ((feats @ [g]) ! j) ents = Inr r' \<longrightarrow> m < fst r'"
    using i(1,4) by (auto simp: nth_append)
  moreover have "i < length (feats @ [g])" "(feats @ [g]) ! i = f" using i(1,2) by (simp_all add: nth_append)
  ultimately show ?thesis unfolding select_post_def using i(3) by auto
qed

lemma select_post_take:
  assumes "select_post ord feats ents r"
    and "split ord g ents = Inr (e, a', sp')"
    and "case r of None \<Rightarrow> True | Some (_, m) \<Rightarrow> e < m"
  shows "select_post ord (feats @ [g]) ents (Some ((g, a', sp'), e))"
proof -
  have lo: "\<forall>j < length feats. \<forall>r'. split ord (feats ! j) ents = Inr r' \<longrightarrow> e < fst r'"
  proof (cases r)
    case None
    with assms(1) have "\<forall>f \<in> set feats. split ord f ents = Inl InvalidSplit"
      by (simp add: select_post_def)
    then show ?thesis by auto
  next
    case (Some x)
    obtain f a sp m where x: "x = ((f, a, sp), m)" by (metis prod.exhaust)
    from assms(1) Some x have "\<forall>j < length feats. \<forall>r'. split ord (feats ! j) ents = Inr r' \<longrightarrow> m \<le> fst r'"
      by (auto simp: select_post_def)
    moreover from assms(3) Some x have "e < m" by simp
    ultimately show ?thesis by fastforce
  qed
  have "\<forall>j < length feats. \<forall>r'. split ord ((feats @ [g]) ! j) ents = Inr r' \<longrightarrow> e < fst r'"
    using lo by (auto simp: nth_append)
  moreover have "\<forall>j < length (feats @ [g]). \<forall>r'. split ord ((feats @ [g]) ! j) ents = Inr r' \<longrightarrow> e \<le> fst r'"
    using lo assms(2) by (auto simp: nth_append less_Suc_eq)
  ultimately show ?thesis
    unfolding select_post_def using assms(2)
    by (auto intro!: exI [of _ "length feats"])
qed

lemma select_None:
  assumes "\<forall>f \<in> set feats. split ord f ents = Inl InvalidSplit \<or> (\<exists>r. split ord f ents = Inr r)"
  shows "\<exists>r. select ord feats ents None = Inr r \<and> select_post ord feats ents r"
  using assms
proof (induction feats rule: rev_induct)
  case Nil
  then show ?case by (simp add: select_post_def)
next
  case (snoc g feats)
  from snoc obtain r where r: "select ord feats ents None = Inr r" "select_post ord feats ents r"
    by auto
  from snoc.prems consider "split ord g ents = Inl InvalidSplit"
    | e a' sp' where "split ord g ents = Inr (e, a', sp')"
    by (metis in_set_conv_decomp prod.exhaust)
  then show ?case
  proof cases
    case 1
    with r(1) have "select ord (feats @ [g]) ents None = Inr r" by (simp add: select_append)
    with select_post_skip [OF r(2) 1] show ?thesis by blast
  next
    case 2
    show ?thesis
    proof (cases "case r of None \<Rightarrow> True | Some (_, m) \<Rightarrow> e < m")
      case True
      with r(1) 2 have "select ord (feats @ [g]) ents None = Inr (Some ((g, a', sp'), e))"
        by (simp add: select_append)
      with select_post_take [OF r(2) 2 True] show ?thesis by blast
    next
      case False
      then obtain f a sp m where rs: "r = Some ((f, a, sp), m)" and le: "m \<le> e"
        by (cases r) auto
      with r(1) 2 have "select ord (feats @ [g]) ents None = Inr r" by (simp add: select_append)
      with select_post_keep [OF r(2) [unfolded rs] 2 le] rs show ?thesis by blast
    qed
  qed
qed

lemma select_long:
  "2 \<le> length ents \<Longrightarrow> \<exists>r. select ord feats ents None = Inr r \<and> select_post ord feats ents r"
  by (rule select_None) (simp add: split_cases del: split_paired_Ex)

lemma select_short:
  "\<not> 2 \<le> length ents \<Longrightarrow>
   select ord feats ents None = (if feats = [] then Inr None else Inl AssertionError)"
  by (cases feats) (simp_all add: split_short)

section \<open>The structure of the tree that \<open>build\<close> returns\<close>

lemma dict_set_fresh: "k \<notin> fst ` set d \<Longrightarrow> dict_set d k v = d @ [(k, v)]"
  by (induction d k v rule: dict_set.induct) auto

lemma build_children_step:
  "build_children ord b ((v, es) # sp) ch =
     (case child_of ord b es of
        None \<Rightarrow> (case build ord b es of Inl x \<Rightarrow> Inl x
                  | Inr r \<Rightarrow> (case bestkey (countkeys es) of Inl x \<Rightarrow> Inl x | Inr best \<Rightarrow> Inl AssertionError))
      | Some t \<Rightarrow> build_children ord b sp (dict_set ch v t))"
  by (simp add: child_of_def split: sum.splits option.splits)

lemma build_children_ok:
  "distinct (map fst sp) \<Longrightarrow> fst ` set sp \<inter> fst ` set ch = {} \<Longrightarrow>
   \<forall>ves \<in> set sp. child_of ord b (snd ves) \<noteq> None \<Longrightarrow>
   build_children ord b sp ch =
     Inr (ch @ map (\<lambda>ves. (fst ves, the (child_of ord b (snd ves)))) sp)"
proof (induction sp arbitrary: ch)
  case Nil
  then show ?case by simp
next
  case (Cons ves sp)
  obtain v es where ves: "ves = (v, es)" by (cases ves)
  from Cons.prems(3) ves obtain t where t: "child_of ord b es = Some t" by auto
  from Cons.prems(2) ves have fresh: "v \<notin> fst ` set ch" by auto
  have d: "distinct (map fst sp)" using Cons.prems(1) by simp
  have i: "fst ` set sp \<inter> fst ` set (ch @ [(v, t)]) = {}"
    using Cons.prems(1,2) ves by auto
  have a: "\<forall>ves \<in> set sp. child_of ord b (snd ves) \<noteq> None" using Cons.prems(3) by simp
  from Cons.IH [OF d i a] show ?case
    unfolding ves by (subst build_children_step) (simp add: t dict_set_fresh [OF fresh])
qed

lemma build_children_Inr:
  "build_children ord b sp ch = Inr ch' \<Longrightarrow> \<forall>ves \<in> set sp. child_of ord b (snd ves) \<noteq> None"
proof (induction sp arbitrary: ch)
  case Nil
  then show ?case by simp
next
  case (Cons ves sp)
  obtain v es where ves: "ves = (v, es)" by (cases ves)
  from Cons.prems [unfolded ves build_children_step] obtain t where t: "child_of ord b es = Some t"
    and rest: "build_children ord b sp (dict_set ch v t) = Inr ch'"
    by (auto split: option.splits sum.splits)
  from Cons.IH [OF rest] t ves show ?case by simp
qed

lemma calcetp_countkeys:
  "ents \<noteq> [] \<Longrightarrow> calcetp (map snd (countkeys ents)) = Inr (entropy_of ents)"
  using entetp_nonempty [of ents] by (simp add: entetp_def)

lemma build_empty: "build ord b [] = Inl ZeroDivisionError"
  by (simp add: build.simps(1) calcetp_def)

lemma build_unfold:
  "ents \<noteq> [] \<Longrightarrow>
   build ord b ents =
     (if entropy_of ents < minetp b then Inr None
      else if int (length ents) < minkeys b then Inr None
      else (case select ord (map snd (features b)) ents None of
              Inl x \<Rightarrow> Inl x
            | Inr None \<Rightarrow> Inr None
            | Inr (Some ((feat, a, sp), _)) \<Rightarrow>
                (case bestkey (countkeys ents) of
                   Inl x \<Rightarrow> Inl x
                 | Inr dflt \<Rightarrow>
                     (case build_children ord b sp [] of
                        Inl x \<Rightarrow> Inl x
                      | Inr children \<Rightarrow> Inr (Some (TreeBranch feat a dflt children))))))"
  by (subst build.simps(1)) (simp add: calcetp_countkeys Let_def)

lemma build_Some:
  assumes "build ord b ents = Inr (Some t)"
  shows "\<exists>f a sp m dflt.
           ents \<noteq> [] \<and> \<not> entropy_of ents < minetp b \<and> \<not> int (length ents) < minkeys b \<and>
           select ord (map snd (features b)) ents None = Inr (Some ((f, a, sp), m)) \<and>
           bestkey (countkeys ents) = Inr dflt \<and>
           (\<forall>ves \<in> set sp. child_of ord b (snd ves) \<noteq> None) \<and>
           t = TreeBranch f a dflt (map (\<lambda>ves. (fst ves, the (child_of ord b (snd ves)))) sp)"
proof -
  from assms have ne: "ents \<noteq> []" by (auto simp: build_empty)
  from assms [unfolded build_unfold [OF ne]] obtain f a sp m dflt ch where
    e: "\<not> entropy_of ents < minetp b" and k: "\<not> int (length ents) < minkeys b"
    and sel: "select ord (map snd (features b)) ents None = Inr (Some ((f, a, sp), m))"
    and best: "bestkey (countkeys ents) = Inr dflt"
    and ch: "build_children ord b sp [] = Inr ch" and t: "t = TreeBranch f a dflt ch"
    by (auto split: if_splits sum.splits option.splits)
  from select_result [OF sel] have s: "split ord f ents = Inr (m, a, sp)" by simp
  have ok: "\<forall>ves \<in> set sp. child_of ord b (snd ves) \<noteq> None" using ch by (rule build_children_Inr)
  from build_children_ok [OF split_generic(2) [OF s] _ ok, of "[]"] ch
  have "ch = map (\<lambda>ves. (fst ves, the (child_of ord b (snd ves)))) sp" by simp
  with ne e k sel best ok t show ?thesis by blast
qed

lemma build_branch:
  assumes "ents \<noteq> []" and "\<not> entropy_of ents < minetp b" and "\<not> int (length ents) < minkeys b"
    and "select ord (map snd (features b)) ents None = Inr (Some ((f, a, sp), m))"
    and "\<forall>ves \<in> set sp. child_of ord b (snd ves) \<noteq> None"
  shows "\<exists>dflt. bestkey (countkeys ents) = Inr dflt \<and>
           build ord b ents =
             Inr (Some (TreeBranch f a dflt (map (\<lambda>ves. (fst ves, the (child_of ord b (snd ves)))) sp)))"
proof -
  from bestkey_countkeys_nonempty [OF assms(1)] obtain dflt where
    best: "bestkey (countkeys ents) = Inr dflt" ..
  from select_result [OF assms(4)] have s: "split ord f ents = Inr (m, a, sp)" by simp
  from build_children_ok [OF split_generic(2) [OF s] _ assms(5), of "[]"]
  have "build_children ord b sp [] =
      Inr (map (\<lambda>ves. (fst ves, the (child_of ord b (snd ves)))) sp)" by simp
  with best assms(2,3,4) show ?thesis by (simp add: build_unfold [OF assms(1)])
qed

section \<open>What \<open>build\<close> returns\<close>

lemma entropy_of_single [simp]: "entropy_of [e] = 0"
  using entetp_nonempty [of "[e]"] by simp

lemma passing_long:
  assumes "ents \<noteq> []" and "0 < minetp b \<or> 2 \<le> minkeys b"
    and "\<not> entropy_of ents < minetp b" and "\<not> int (length ents) < minkeys b"
  shows "2 \<le> length ents"
proof (rule ccontr)
  assume "\<not> 2 \<le> length ents"
  with assms(1) obtain e where e: "ents = [e]"
    by (cases ents) (auto simp: Suc_le_eq)
  with assms(2,3,4) show False by auto
qed

lemma child_of_None_iff:
  "ents \<noteq> [] \<Longrightarrow> child_of ord b ents = None \<longleftrightarrow> (\<exists>x. build ord b ents = Inl x)"
  using bestkey_countkeys_nonempty [of ents]
  by (auto simp: child_of_def split: sum.splits option.splits)

lemma build_total:
  assumes safe: "0 < minetp b \<or> 2 \<le> minkeys b"
  shows "ents \<noteq> [] \<Longrightarrow> \<exists>r. build ord b ents = Inr r"
proof (induction "length ents" arbitrary: ents rule: less_induct)
  case less
  note ne = less.prems
  show ?case
  proof (cases "entropy_of ents < minetp b \<or> int (length ents) < minkeys b")
    case True
    then show ?thesis by (auto simp: build_unfold [OF ne])
  next
    case False
    then have p: "\<not> entropy_of ents < minetp b" "\<not> int (length ents) < minkeys b" by auto
    from passing_long [OF ne safe p] have "2 \<le> length ents" .
    from select_long [OF this] obtain r where
      r: "select ord (map snd (features b)) ents None = Inr r" by blast
    show ?thesis
    proof (cases r)
      case None
      with r p show ?thesis by (simp add: build_unfold [OF ne])
    next
      case (Some x)
      obtain f a sp m where x: "x = ((f, a, sp), m)" by (metis prod.exhaust)
      from r Some x have sel: "select ord (map snd (features b)) ents None = Inr (Some ((f, a, sp), m))"
        by simp
      from select_result [OF sel] have s: "split ord f ents = Inr (m, a, sp)" by simp
      have "child_of ord b (snd ves) \<noteq> None" if "ves \<in> set sp" for ves
      proof -
        from split_generic(3) [OF s] that have "snd ves \<noteq> []" "length (snd ves) < length ents"
          by (auto dest: mset_proper_length)
        from less.hyps [OF this(2) this(1)] this(1) show ?thesis
          by (auto simp: child_of_None_iff)
      qed
      then have "\<forall>ves \<in> set sp. child_of ord b (snd ves) \<noteq> None" by blast
      from build_branch [OF ne p sel this] show ?thesis by blast
    qed
  qed
qed

lemma child_rel_child_of:
  assumes "child_of ord b es \<noteq> None"
  shows "child_rel ord b (v, the (child_of ord b es)) (v, es)"
  using assms bestkey_countkeys_majority [of es]
  by (auto simp: child_rel_def child_of_def split: sum.splits option.splits)

lemma children_rel:
  assumes "\<forall>ves \<in> set sp. child_of ord b (snd ves) \<noteq> None"
  shows "list_all2 (child_rel ord b) (map (\<lambda>ves. (fst ves, the (child_of ord b (snd ves)))) sp) sp"
proof -
  have "child_rel ord b (fst ves, the (child_of ord b (snd ves))) ves" if "ves \<in> set sp" for ves
    using child_rel_child_of [of ord b "snd ves" "fst ves"] assms that by simp
  then show ?thesis by (simp add: list_all2_map1 list_all2_same)
qed

lemma build_single: "0 < minetp b \<Longrightarrow> build ord b [e] = Inr None"
  by (simp add: build_unfold)

lemma entropy_of_ab: "entropy_of [ent_a, ent_b] = 1"
proof -
  have "entetp [ent_a, ent_b] = Inr 1"
    by (simp add: entetp_def countkeys_def calcetp_def ent_a_def ent_b_def)
  with entetp_nonempty [of "[ent_a, ent_b]"] show ?thesis by simp
qed

lemma bestkey_ab: "bestkey (countkeys [ent_a, ent_b]) = Inr ''A''"
  by (simp add: countkeys_def bestkey_def ent_a_def ent_b_def)

lemma bestkey_a: "bestkey (countkeys [ent_a]) = Inr ''A''"
  by (simp add: countkeys_def bestkey_def ent_a_def)

lemma bestkey_b: "bestkey (countkeys [ent_b]) = Inr ''B''"
  by (simp add: countkeys_def bestkey_def ent_b_def)

lemma builder_type_simps [simp]:
  "features builder_type = [(''DF:type'', DiscreteFeature ''type'')]"
  "minkeys builder_type = 1" "minetp builder_type = 1 / 10"
  "features builder_type0 = [(''DF:type'', DiscreteFeature ''type'')]"
  "minkeys builder_type0 = 1" "minetp builder_type0 = 0"
  by (simp_all add: builder_type_def builder_type0_def addfeat_def)

lemma build_type_ab:
  "build ord builder_type [ent_a, ent_b] =
     Inr (Some (TreeBranch (DiscreteFeature ''type'') ANone ''A''
       [(BStr ''block'', TreeLeaf ''A''), (BStr ''line'', TreeLeaf ''B'')]))"
proof -
  have sel: "select ord [DiscreteFeature ''type''] [ent_a, ent_b] None =
      Inr (Some ((DiscreteFeature ''type'', ANone,
        [(BStr ''block'', [ent_a]), (BStr ''line'', [ent_b])]), 0))"
    using split_type_ab [of ord] by simp
  have ch: "build_children ord builder_type [(BStr ''block'', [ent_a]), (BStr ''line'', [ent_b])] [] =
      Inr [(BStr ''block'', TreeLeaf ''A''), (BStr ''line'', TreeLeaf ''B'')]"
    by (simp add: build_single bestkey_a bestkey_b)
  show ?thesis
    by (subst build_unfold) (simp_all add: entropy_of_ab sel bestkey_ab ch del: select.simps build_children.simps)
qed

lemma build_type0_a: "build ord builder_type0 [ent_a] = Inl AssertionError"
proof -
  have sel: "select ord [DiscreteFeature ''type''] [ent_a] None = Inl AssertionError"
    using split_type_a [of ord] by simp
  show ?thesis
    by (subst build_unfold) (simp_all add: sel del: select.simps)
qed

lemma build_None_iff:
  assumes "ents \<noteq> []"
  shows "build ord b ents = Inr None \<longleftrightarrow>
           entropy_of ents < minetp b \<or> int (length ents) < minkeys b \<or>
           (\<forall>f \<in> set (map snd (features b)). split ord f ents = Inl InvalidSplit)"
proof (cases "entropy_of ents < minetp b \<or> int (length ents) < minkeys b")
  case True
  then show ?thesis by (auto simp: build_unfold [OF assms])
next
  case False
  then have p: "\<not> entropy_of ents < minetp b" "\<not> int (length ents) < minkeys b" by auto
  let ?feats = "map snd (features b)"
  have "build ord b ents = Inr None \<longleftrightarrow> (\<forall>f \<in> set ?feats. split ord f ents = Inl InvalidSplit)"
  proof (cases "2 \<le> length ents")
    case short: False
    show ?thesis
    proof (cases "?feats = []")
      case True
      with p short show ?thesis by (simp add: build_unfold [OF assms])
    next
      case False
      then obtain f where f: "f \<in> set ?feats" by (cases ?feats) auto
      from split_short [OF short, of ord f] f
      have "\<not> (\<forall>f \<in> set ?feats. split ord f ents = Inl InvalidSplit)" by force
      moreover from select_short [OF short, of ord ?feats] False p
      have "build ord b ents = Inl AssertionError" by (simp add: build_unfold [OF assms])
      ultimately show ?thesis by simp
    qed
  next
    case True
    from select_long [OF this] obtain r where
      r: "select ord ?feats ents None = Inr r" and post: "select_post ord ?feats ents r" by blast
    show ?thesis
    proof (cases r)
      case None
      with post have "\<forall>f \<in> set ?feats. split ord f ents = Inl InvalidSplit"
        by (simp add: select_post_def)
      moreover from None r p have "build ord b ents = Inr None"
        by (simp add: build_unfold [OF assms])
      ultimately show ?thesis by simp
    next
      case (Some x)
      obtain f a sp m where x: "x = ((f, a, sp), m)" by (metis prod.exhaust)
      from post Some x have f: "f \<in> set ?feats" and s: "split ord f ents = Inr (m, a, sp)"
        by (auto simp: select_post_def)
      have "\<not> (\<forall>f \<in> set ?feats. split ord f ents = Inl InvalidSplit)"
      proof
        assume "\<forall>f \<in> set ?feats. split ord f ents = Inl InvalidSplit"
        with f have "split ord f ents = Inl InvalidSplit" by blast
        with s show False by simp
      qed
      moreover from r Some x p have "build ord b ents \<noteq> Inr None"
        by (simp add: build_unfold [OF assms] split: sum.splits)
      ultimately show ?thesis by simp
    qed
  qed
  with False show ?thesis by simp
qed

lemma build_Some_shape:
  assumes "build ord b ents = Inr (Some t)"
  shows "\<exists>f a sp m dflt children.
           t = TreeBranch f a dflt children \<and>
           f \<in> set (map snd (features b)) \<and> split ord f ents = Inr (m, a, sp) \<and>
           majority_label dflt ents \<and>
           list_all2 (child_rel ord b) children sp"
proof -
  from build_Some [OF assms] obtain f a sp m dflt where
    sel: "select ord (map snd (features b)) ents None = Inr (Some ((f, a, sp), m))"
    and best: "bestkey (countkeys ents) = Inr dflt"
    and ok: "\<forall>ves \<in> set sp. child_of ord b (snd ves) \<noteq> None"
    and t: "t = TreeBranch f a dflt (map (\<lambda>ves. (fst ves, the (child_of ord b (snd ves)))) sp)"
    by blast
  from select_result [OF sel] have "f \<in> set (map snd (features b))"
    and "split ord f ents = Inr (m, a, sp)" by simp_all
  with t bestkey_countkeys_majority [OF best] children_rel [OF ok] show ?thesis by blast
qed

lemma build_returns_branch:
  assumes "ents \<noteq> []" and "\<not> entropy_of ents < minetp b" and "\<not> int (length ents) < minkeys b"
    and "select ord (map snd (features b)) ents None = Inr (Some ((f, a, sp), m))"
    and "\<forall>ves \<in> set sp. \<exists>r. build ord b (snd ves) = Inr r"
  shows "\<exists>dflt children. build ord b ents = Inr (Some (TreeBranch f a dflt children))"
proof -
  from select_result [OF assms(4)] have s: "split ord f ents = Inr (m, a, sp)" by simp
  have "\<forall>ves \<in> set sp. child_of ord b (snd ves) \<noteq> None"
  proof
    fix ves assume ves: "ves \<in> set sp"
    with split_generic(3) [OF s] have "snd ves \<noteq> []" by auto
    with assms(5) ves show "child_of ord b (snd ves) \<noteq> None"
      by (auto simp: child_of_None_iff)
  qed
  from build_branch [OF assms(1-4) this] show ?thesis by blast
qed

lemma split_type_4:
  "split ord (DiscreteFeature ''type'') [ent_a, ent_a2, ent_b, ent_b2] =
     Inr (0, ANone, [(BStr ''block'', [ent_a, ent_a2]), (BStr ''line'', [ent_b, ent_b2])])"
  by (simp add: DiscreteFeature_split_def DiscreteFeature_get_def entetp_def countkeys_def
      calcetp_def ent_a_def ent_a2_def ent_b_def ent_b2_def)

lemma split_type_same:
  "split ord (DiscreteFeature ''type'') [ent_a, ent_a2] = Inl InvalidSplit"
  "split ord (DiscreteFeature ''type'') [ent_b, ent_b2] = Inl InvalidSplit"
  by (simp_all add: DiscreteFeature_split_def DiscreteFeature_get_def
      ent_a_def ent_a2_def ent_b_def ent_b2_def)

lemma entropy_type_4:
  "entropy_of [ent_a, ent_a2, ent_b, ent_b2] = 1"
  "entropy_of [ent_a, ent_a2] = 0" "entropy_of [ent_b, ent_b2] = 0"
proof -
  have "entetp [ent_a, ent_a2, ent_b, ent_b2] = Inr 1"
    "entetp [ent_a, ent_a2] = Inr 0" "entetp [ent_b, ent_b2] = Inr 0"
    by (simp_all add: entetp_def countkeys_def calcetp_def ent_a_def ent_a2_def ent_b_def ent_b2_def)
  with entetp_nonempty [of "[ent_a, ent_a2, ent_b, ent_b2]"] entetp_nonempty [of "[ent_a, ent_a2]"]
    entetp_nonempty [of "[ent_b, ent_b2]"]
  show "entropy_of [ent_a, ent_a2, ent_b, ent_b2] = 1"
    "entropy_of [ent_a, ent_a2] = 0" "entropy_of [ent_b, ent_b2] = 0"
    by simp_all
qed

lemma bestkey_type_4:
  "bestkey (countkeys [ent_a, ent_a2, ent_b, ent_b2]) = Inr ''A''"
  "bestkey (countkeys [ent_a, ent_a2]) = Inr ''A''"
  "bestkey (countkeys [ent_b, ent_b2]) = Inr ''B''"
  by (simp_all add: countkeys_def bestkey_def ent_a_def ent_a2_def ent_b_def ent_b2_def)

lemma build_type0_same:
  "build ord builder_type0 [ent_a, ent_a2] = Inr None"
  "build ord builder_type0 [ent_b, ent_b2] = Inr None"
  by (simp_all add: build_unfold entropy_type_4 split_type_same del: split.simps)

lemma build_type0_4:
  "build ord builder_type0 [ent_a, ent_a2, ent_b, ent_b2] =
     Inr (Some (TreeBranch (DiscreteFeature ''type'') ANone ''A''
       [(BStr ''block'', TreeLeaf ''A''), (BStr ''line'', TreeLeaf ''B'')]))"
  by (subst build_unfold)
    (simp_all add: entropy_type_4 split_type_4 bestkey_type_4 build_type0_same del: split.simps)

text \<open>
  C1, as the code has it. For a non-empty entity set \<open>build\<close> returns \<open>None\<close> exactly when
  the entropy of the labels is below the minimum entropy, or the number of entities is
  below the minimum count, or every registered feature signals \<open>InvalidSplit\<close>. Every tree
  it returns is a branch on a registered feature whose split succeeded, with a majority
  label of the set as default and one child per partition of that split, in order: a leaf
  with a majority label of the partition when the recursive call returned \<open>None\<close>, the
  returned branch otherwise. It returns such a branch whenever neither threshold stops it,
  a feature is selected and the recursive calls on the partitions of the selected split
  return; and it returns, for every non-empty set, when the minimum entropy is positive
  or the minimum count at least 2.
\<close>

theorem build_spec:
  "(ents \<noteq> [] \<longrightarrow>
      (build ord b ents = Inr None \<longleftrightarrow>
         entropy_of ents < minetp b \<or> int (length ents) < minkeys b \<or>
         (\<forall>f \<in> set (map snd (features b)). split ord f ents = Inl InvalidSplit))) \<and>
   (build ord b ents = Inr (Some t) \<longrightarrow>
      (\<exists>f a sp m dflt children.
         t = TreeBranch f a dflt children \<and>
         f \<in> set (map snd (features b)) \<and> split ord f ents = Inr (m, a, sp) \<and>
         majority_label dflt ents \<and>
         list_all2 (child_rel ord b) children sp)) \<and>
   (ents \<noteq> [] \<and> \<not> entropy_of ents < minetp b \<and> \<not> int (length ents) < minkeys b \<and>
    select ord (map snd (features b)) ents None = Inr (Some ((f', a', sp'), m')) \<and>
    (\<forall>ves \<in> set sp'. \<exists>r. build ord b (snd ves) = Inr r) \<longrightarrow>
      (\<exists>dflt children. build ord b ents = Inr (Some (TreeBranch f' a' dflt children)))) \<and>
   (ents \<noteq> [] \<and> (0 < minetp b \<or> 2 \<le> minkeys b) \<longrightarrow> (\<exists>r. build ord b ents = Inr r))"
proof (intro conjI impI)
  assume "ents \<noteq> []"
  then show "build ord b ents = Inr None \<longleftrightarrow>
         entropy_of ents < minetp b \<or> int (length ents) < minkeys b \<or>
         (\<forall>f \<in> set (map snd (features b)). split ord f ents = Inl InvalidSplit)"
    by (rule build_None_iff)
next
  assume "build ord b ents = Inr (Some t)"
  then show "\<exists>f a sp m dflt children.
         t = TreeBranch f a dflt children \<and>
         f \<in> set (map snd (features b)) \<and> split ord f ents = Inr (m, a, sp) \<and>
         majority_label dflt ents \<and>
         list_all2 (child_rel ord b) children sp"
    by (rule build_Some_shape)
next
  assume "ents \<noteq> [] \<and> \<not> entropy_of ents < minetp b \<and> \<not> int (length ents) < minkeys b \<and>
    select ord (map snd (features b)) ents None = Inr (Some ((f', a', sp'), m')) \<and>
    (\<forall>ves \<in> set sp'. \<exists>r. build ord b (snd ves) = Inr r)"
  then show "\<exists>dflt children. build ord b ents = Inr (Some (TreeBranch f' a' dflt children))"
    using build_returns_branch by blast
next
  assume "ents \<noteq> [] \<and> (0 < minetp b \<or> 2 \<le> minkeys b)"
  then show "\<exists>r. build ord b ents = Inr r" using build_total by blast
qed

theorem build_spec_witness:
  "[ent_a, ent_a2, ent_b, ent_b2] \<noteq> [] \<and>
   minetp builder_type0 = 0 \<and> minkeys builder_type0 = 1 \<and>
   \<not> entropy_of [ent_a, ent_a2, ent_b, ent_b2] < minetp builder_type0 \<and>
   \<not> int (length [ent_a, ent_a2, ent_b, ent_b2]) < minkeys builder_type0 \<and>
   select by_eid (map snd (features builder_type0)) [ent_a, ent_a2, ent_b, ent_b2] None =
     Inr (Some ((DiscreteFeature ''type'', ANone,
       [(BStr ''block'', [ent_a, ent_a2]), (BStr ''line'', [ent_b, ent_b2])]), 0)) \<and>
   build by_eid builder_type0 [ent_a, ent_a2] = Inr None \<and>
   build by_eid builder_type0 [ent_b, ent_b2] = Inr None \<and>
   build by_eid builder_type0 [ent_a, ent_a2, ent_b, ent_b2] =
     Inr (Some (TreeBranch (DiscreteFeature ''type'') ANone ''A''
       [(BStr ''block'', TreeLeaf ''A''), (BStr ''line'', TreeLeaf ''B'')])) \<and>
   [ent_a, ent_b] \<noteq> [] \<and> 0 < minetp builder_type \<and>
   build by_eid builder_type [ent_a, ent_b] =
     Inr (Some (TreeBranch (DiscreteFeature ''type'') ANone ''A''
       [(BStr ''block'', TreeLeaf ''A''), (BStr ''line'', TreeLeaf ''B'')]))"
proof -
  have sel: "select by_eid (map snd (features builder_type0)) [ent_a, ent_a2, ent_b, ent_b2] None =
     Inr (Some ((DiscreteFeature ''type'', ANone,
       [(BStr ''block'', [ent_a, ent_a2]), (BStr ''line'', [ent_b, ent_b2])]), 0))"
    using split_type_4 [of by_eid] by simp
  have ch: "\<forall>ves \<in> set [(BStr ''block'', [ent_a, ent_a2]), (BStr ''line'', [ent_b, ent_b2])].
      \<exists>r. build by_eid builder_type0 (snd ves) = Inr r"
    by (simp add: build_type0_same)
  have p: "[ent_a, ent_a2, ent_b, ent_b2] \<noteq> []"
    "\<not> entropy_of [ent_a, ent_a2, ent_b, ent_b2] < minetp builder_type0"
    "\<not> int (length [ent_a, ent_a2, ent_b, ent_b2]) < minkeys builder_type0"
    by (simp_all add: entropy_type_4)
  from build_spec [where ents = "[ent_a, ent_a2, ent_b, ent_b2]" and ord = by_eid
      and b = builder_type0 and f' = "DiscreteFeature ''type''" and a' = ANone
      and sp' = "[(BStr ''block'', [ent_a, ent_a2]), (BStr ''line'', [ent_b, ent_b2])]" and m' = 0
      and t = "TreeBranch (DiscreteFeature ''type'') ANone ''A''
       [(BStr ''block'', TreeLeaf ''A''), (BStr ''line'', TreeLeaf ''B'')]"] p sel ch
  have "\<exists>dflt children. build by_eid builder_type0 [ent_a, ent_a2, ent_b, ent_b2] =
      Inr (Some (TreeBranch (DiscreteFeature ''type'') ANone dflt children))"
    by blast
  moreover from build_spec [where ents = "[ent_a, ent_b]" and ord = by_eid and b = builder_type]
  have "\<exists>r. build by_eid builder_type [ent_a, ent_b] = Inr r" by simp
  ultimately show ?thesis
    using p sel build_type0_same [of by_eid] build_type0_4 [of by_eid] build_type_ab [of by_eid]
    by simp
qed

theorem build_raises_counterexample:
  "int (length ([] :: entity list)) < minkeys builder_default \<and>
   build by_eid builder_default [] = Inl ZeroDivisionError \<and>
   \<not> entropy_of [ent_a] < minetp builder_type0 \<and>
   \<not> int (length [ent_a]) < minkeys builder_type0 \<and>
   map snd (features builder_type0) = [DiscreteFeature ''type''] \<and>
   split by_eid (DiscreteFeature ''type'') [ent_a] \<noteq> Inl InvalidSplit \<and>
   build by_eid builder_type0 [ent_a] = Inl AssertionError"
  using split_type_a [of by_eid]
  by (simp add: build_empty build_type0_a builder_default_def)

section \<open>Export and import\<close>

lemma built_induct [consumes 1, case_names leaf branch]:
  assumes "build ord b ents = Inr (Some t)"
    and leaf: "\<And>l. P (TreeLeaf l)"
    and branch: "\<And>f a sp m dflt children ents.
        select ord (map snd (features b)) ents None = Inr (Some ((f, a, sp), m)) \<Longrightarrow>
        map fst children = map fst sp \<Longrightarrow>
        (\<forall>vt \<in> set children. P (snd vt)) \<Longrightarrow> P (TreeBranch f a dflt children)"
  shows "P t"
  using assms(1)
proof (induction "length ents" arbitrary: ents t rule: less_induct)
  case less
  from build_Some [OF less.prems] obtain f a sp m dflt where
    sel: "select ord (map snd (features b)) ents None = Inr (Some ((f, a, sp), m))"
    and ok: "\<forall>ves \<in> set sp. child_of ord b (snd ves) \<noteq> None"
    and t: "t = TreeBranch f a dflt (map (\<lambda>ves. (fst ves, the (child_of ord b (snd ves)))) sp)"
    by blast
  let ?children = "map (\<lambda>ves. (fst ves, the (child_of ord b (snd ves)))) sp"
  from select_result [OF sel] have s: "split ord f ents = Inr (m, a, sp)" by simp
  have "P (snd vt)" if "vt \<in> set ?children" for vt
  proof -
    from that obtain ves where ves: "ves \<in> set sp" "snd vt = the (child_of ord b (snd ves))"
      by auto
    from ok ves(1) obtain t' where t': "child_of ord b (snd ves) = Some t'" by auto
    from split_generic(3) [OF s] ves(1) have len: "length (snd ves) < length ents"
      by (auto dest: mset_proper_length)
    from t' have "(\<exists>l. t' = TreeLeaf l) \<or> build ord b (snd ves) = Inr (Some t')"
      by (auto simp: child_of_def split: sum.splits option.splits)
    then show ?thesis
    proof
      assume "\<exists>l. t' = TreeLeaf l"
      with leaf ves(2) t' show ?thesis by auto
    next
      assume "build ord b (snd ves) = Inr (Some t')"
      from less.hyps [OF len this] ves(2) t' show ?thesis by simp
    qed
  qed
  then have "\<forall>vt \<in> set ?children. P (snd vt)" by blast
  moreover have "map fst ?children = map fst sp" by (simp add: comp_def)
  ultimately show ?case unfolding t using sel by (intro branch)
qed

lemma dict_set_keys: "fst ` set (dict_set d k v) = insert k (fst ` set d)"
  by (induction d k v rule: dict_set.induct) auto

lemma dict_set_distinct: "distinct (map fst d) \<Longrightarrow> distinct (map fst (dict_set d k v))"
  by (induction d k v rule: dict_set.induct) (auto simp: dict_set_keys)

lemma dict_set_mem:
  "(k', v') \<in> set (dict_set d k v) \<Longrightarrow> (k', v') \<in> set d \<or> (k', v') = (k, v)"
  by (induction d k v rule: dict_set.induct) (auto split: if_splits)

lemma registry_ok_addfeat: "registry_ok b \<Longrightarrow> registry_ok (addfeat b feat)"
  unfolding registry_ok_def addfeat_def
  by (auto simp: dict_set_distinct dest!: dict_set_mem)

lemma registry_ok_foldl: "registry_ok b \<Longrightarrow> registry_ok (foldl addfeat b feats)"
  by (induction feats arbitrary: b) (auto simp: registry_ok_addfeat)

lemma registry_ok_TreeBuilder: "registry_ok (TreeBuilder k m feats)"
  unfolding TreeBuilder_def by (rule registry_ok_foldl) (simp add: registry_ok_def)

lemma registry_lookup:
  assumes "registry_ok b" and "f \<in> set (map snd (features b))"
  shows "map_of (features b) (feature_name f) = Some f"
proof -
  from assms(2) obtain n where n: "(n, f) \<in> set (features b)" by auto
  with assms(1) have "n = feature_name f" by (force simp: registry_ok_def)
  with n assms(1) show ?thesis by (simp add: registry_ok_def)
qed

lemma built_tree_ok:
  assumes "build ord b ents = Inr (Some t)" and "registry_ok b"
  shows "tree_ok b t"
  using assms(1)
proof (induction rule: built_induct)
  case (leaf l)
  show ?case by simp
next
  case (branch f a sp m dflt children ents)
  from select_result [OF branch(1)] have f: "f \<in> set (map snd (features b))"
    and s: "split ord f ents = Inr (m, a, sp)" by simp_all
  from split_generic(2) [OF s] branch(2) have "distinct (map fst children)" by simp
  with registry_lookup [OF assms(2) f] branch(3) show ?case by simp
qed

lemma import_children_ok:
  "distinct (map fst ch) \<Longrightarrow> fst ` set ch \<inter> fst ` set acc = {} \<Longrightarrow>
   \<forall>vt \<in> set ch. import_tree b (export_tree (snd vt)) = Inr (snd vt) \<Longrightarrow>
   import_children b (map (\<lambda>(v, branch). (v, export_tree branch)) ch) acc = Inr (acc @ ch)"
proof (induction ch arbitrary: acc)
  case Nil
  then show ?case by simp
next
  case (Cons vt ch)
  obtain v t where vt: "vt = (v, t)" by (cases vt)
  from Cons.prems(2) vt have fresh: "v \<notin> fst ` set acc" by auto
  have d: "distinct (map fst ch)" using Cons.prems(1) by simp
  have i: "fst ` set ch \<inter> fst ` set (acc @ [(v, t)]) = {}" using Cons.prems(1,2) vt by auto
  have a: "\<forall>vt \<in> set ch. import_tree b (export_tree (snd vt)) = Inr (snd vt)"
    using Cons.prems(3) by simp
  have t: "import_tree b (export_tree t) = Inr t" using Cons.prems(3) vt by simp
  from Cons.IH [OF d i a] show ?case
    unfolding vt by (simp add: t dict_set_fresh [OF fresh])
qed

lemma import_export: "tree_ok b t \<Longrightarrow> import_tree b (export_tree t) = Inr t"
proof (induction t)
  case (TreeLeaf k)
  show ?case by simp
next
  case (TreeBranch feat a dflt children)
  have "\<forall>vt \<in> set children. import_tree b (export_tree (snd vt)) = Inr (snd vt)"
  proof
    fix vt assume vt: "vt \<in> set children"
    with TreeBranch.prems have "tree_ok b (snd vt)" by simp
    with TreeBranch.IH [of vt "snd vt"] vt show "import_tree b (export_tree (snd vt)) = Inr (snd vt)"
      by (cases vt) auto
  qed
  moreover from TreeBranch.prems have "distinct (map fst children)" by simp
  ultimately have "import_children b (map (\<lambda>(v, branch). (v, export_tree branch)) children) [] =
      Inr children"
    using import_children_ok [of children "[]" b] by simp
  with TreeBranch.prems show ?case by simp
qed

text \<open>
  C6. For a builder made by the constructor and \<open>addfeat\<close>, every tree that \<open>build\<close>
  returns is imported back from its export: \<open>import_tree\<close> resolves each feature name in
  the registry and yields the tree itself, so exporting the imported tree gives the same
  structure again.
\<close>

theorem export_import_roundtrip:
  assumes "build ord (TreeBuilder k m feats) ents = Inr (Some t)"
  shows "import_tree (TreeBuilder k m feats) (export_tree t) = Inr t \<and>
         (\<exists>t'. import_tree (TreeBuilder k m feats) (export_tree t) = Inr t' \<and>
               export_tree t' = export_tree t)"
  using import_export [OF built_tree_ok [OF assms registry_ok_TreeBuilder]] by simp

theorem export_import_roundtrip_witness:
  "build by_eid (TreeBuilder 1 (1 / 10) [DiscreteFeature ''type'']) [ent_a, ent_b] =
     Inr (Some (TreeBranch (DiscreteFeature ''type'') ANone ''A''
       [(BStr ''block'', TreeLeaf ''A''), (BStr ''line'', TreeLeaf ''B'')])) \<and>
   export_tree (TreeBranch (DiscreteFeature ''type'') ANone ''A''
       [(BStr ''block'', TreeLeaf ''A''), (BStr ''line'', TreeLeaf ''B'')]) =
     Tuple ''DF:type'' ANone ''A'' [(BStr ''block'', Scalar ''A''), (BStr ''line'', Scalar ''B'')] \<and>
   import_tree (TreeBuilder 1 (1 / 10) [DiscreteFeature ''type''])
     (Tuple ''DF:type'' ANone ''A'' [(BStr ''block'', Scalar ''A''), (BStr ''line'', Scalar ''B'')]) =
     Inr (TreeBranch (DiscreteFeature ''type'') ANone ''A''
       [(BStr ''block'', TreeLeaf ''A''), (BStr ''line'', TreeLeaf ''B'')])"
proof -
  have b: "TreeBuilder 1 (1 / 10) [DiscreteFeature ''type''] = builder_type"
    by (simp add: TreeBuilder_def builder_type_def)
  have h: "build by_eid (TreeBuilder 1 (1 / 10) [DiscreteFeature ''type'']) [ent_a, ent_b] =
     Inr (Some (TreeBranch (DiscreteFeature ''type'') ANone ''A''
       [(BStr ''block'', TreeLeaf ''A''), (BStr ''line'', TreeLeaf ''B'')]))"
    unfolding b by (rule build_type_ab)
  from export_import_roundtrip [OF h] h show ?thesis by simp
qed

section \<open>Dependence on the iteration order of sets\<close>

lemma insort_key_cong:
  "f x = g x \<Longrightarrow> \<forall>y \<in> set ys. f y = g y \<Longrightarrow> insort_key f x ys = insort_key g x ys"
  by (induction ys) auto

lemma sort_key_agree: "\<forall>x \<in> set xs. f x = g x \<Longrightarrow> sort_key f xs = sort_key g xs"
proof (induction xs)
  case Nil
  show ?case by simp
next
  case (Cons x xs)
  then have "sort_key f xs = sort_key g xs" by simp
  moreover have "insort_key f x (sort_key g xs) = insort_key g x (sort_key g xs)"
    using Cons.prems by (intro insort_key_cong) simp_all
  ultimately show ?case by (simp add: sort_key_def)
qed

lemma set_list_agree: "\<forall>e \<in> set s. ord e = ord' e \<Longrightarrow> set_list ord s = set_list ord' s"
  unfolding set_list_def by (rule sort_key_agree)

lemma mf_scan_agree:
  "\<forall>ks \<in> set d. \<forall>e \<in> set (snd ks). ord e = ord' e \<Longrightarrow>
   mf_scan ord ents d st = mf_scan ord' ents d st"
proof (induction d arbitrary: st)
  case Nil
  show ?case by simp
next
  case (Cons ks d)
  obtain k s where ks: "ks = (k, s)" by (cases ks)
  from Cons.prems ks have "set_list ord s = set_list ord' s" by (intro set_list_agree) simp
  moreover from Cons have "mf_scan ord ents d st' = mf_scan ord' ents d st'" for st' by simp
  ultimately show ?case unfolding ks by (auto simp: Let_def split: sum.splits)
qed

lemma MembershipFeature_split_agree:
  assumes "\<forall>e \<in> set ents. ord e = ord' e"
  shows "MembershipFeature_split ord get ents = MembershipFeature_split ord' get ents"
proof -
  let ?d = "members_dict get ents"
  have ok: "members_ok ?d (\<lambda>k. {e \<in> set ents. k \<in> set (get e)})" by (rule members_dict_ok)
  have sub: "\<forall>e \<in> set (snd ks). ord e = ord' e" if "ks \<in> set ?d" for ks
    using ok that assms by (auto simp: members_ok_def)
  then have scan: "mf_scan ord ents ?d None = mf_scan ord' ents ?d None"
    by (intro mf_scan_agree) blast
  have "set_list ord es = set_list ord' es" if "map_of ?d a = Some es" for a es
    using sub [OF map_of_SomeD [OF that]] by (intro set_list_agree) simp
  then show ?thesis
    unfolding MembershipFeature_split_def Let_def scan
    by (auto split: sum.splits option.splits)
qed

lemma split_agree:
  "\<forall>e \<in> set ents. ord e = ord' e \<Longrightarrow> split ord feat ents = split ord' feat ents"
  by (cases feat) (simp_all add: MembershipFeature_split_agree)

lemma select_agree:
  "\<forall>e \<in> set ents. ord e = ord' e \<Longrightarrow> select ord feats ents st = select ord' feats ents st"
  by (induction feats arbitrary: st)
    (auto simp: split_agree [of ents ord ord'] split: sum.splits error.splits)

lemma build_children_agree:
  "\<forall>ves \<in> set sp. build ord b (snd ves) = build ord' b (snd ves) \<Longrightarrow>
   build_children ord b sp ch = build_children ord' b sp ch"
  by (induction sp arbitrary: ch) (auto split: sum.splits option.splits)

lemma build_agree:
  "\<forall>e \<in> set ents. ord e = ord' e \<Longrightarrow> build ord b ents = build ord' b ents"
proof (induction "length ents" arbitrary: ents rule: less_induct)
  case less
  show ?case
  proof (cases "ents = []")
    case True
    then show ?thesis by (simp add: build_empty)
  next
    case False
    have sel: "select ord (map snd (features b)) ents None = select ord' (map snd (features b)) ents None"
      using less.prems by (rule select_agree)
    have ch: "build_children ord b sp [] = build_children ord' b sp []"
      if "select ord (map snd (features b)) ents None = Inr (Some ((f, a, sp), m))" for f a sp m
    proof (rule build_children_agree, rule ballI)
      fix ves assume ves: "ves \<in> set sp"
      from select_result [OF that] have s: "split ord f ents = Inr (m, a, sp)" by simp
      from split_generic(3) [OF s] ves have p: "mset (snd ves) \<subset># mset ents" by auto
      then have "set (snd ves) \<subseteq> set ents"
        by (metis set_mset_mono set_mset_mset subset_mset.less_imp_le)
      with less.prems have "\<forall>e \<in> set (snd ves). ord e = ord' e" by blast
      with less.hyps [OF mset_proper_length [OF p]]
      show "build ord b (snd ves) = build ord' b (snd ves)" by blast
    qed
    show ?thesis
    proof (cases "select ord (map snd (features b)) ents None")
      case (Inl x)
      with sel have "select ord' (map snd (features b)) ents None = Inl x" by simp
      with Inl show ?thesis by (simp add: build_unfold [OF False])
    next
      case (Inr r)
      show ?thesis
      proof (cases r)
        case None
        with Inr sel have "select ord' (map snd (features b)) ents None = Inr None" by simp
        with Inr None show ?thesis by (simp add: build_unfold [OF False])
      next
        case (Some x)
        obtain f a sp m where x: "x = ((f, a, sp), m)" by (metis prod.exhaust)
        from Inr Some x have s1: "select ord (map snd (features b)) ents None = Inr (Some ((f, a, sp), m))"
          by simp
        with sel have s2: "select ord' (map snd (features b)) ents None = Inr (Some ((f, a, sp), m))"
          by simp
        show ?thesis
          by (simp add: build_unfold [OF False] s1 s2 ch [OF s1] cong: sum.case_cong)
      qed
    qed
  qed
qed

lemma select_first_minimal:
  assumes "select ord feats ents None = Inr (Some ((f, a, sp), m))"
  shows "\<exists>i < length feats. feats ! i = f \<and> split ord f ents = Inr (m, a, sp) \<and>
           (\<forall>j < length feats. \<forall>r'. split ord (feats ! j) ents = Inr r' \<longrightarrow> m \<le> fst r') \<and>
           (\<forall>j < i. \<forall>r'. split ord (feats ! j) ents = Inr r' \<longrightarrow> m < fst r')"
proof -
  have "2 \<le> length ents"
  proof (rule ccontr)
    assume "\<not> 2 \<le> length ents"
    from select_short [OF this, of ord feats] assms show False by (simp split: if_splits)
  qed
  from select_long [OF this, of ord feats] assms
  have "select_post ord feats ents (Some ((f, a, sp), m))" by auto
  then show ?thesis unfolding select_post_def by auto
qed

section \<open>A run that depends on the iteration order\<close>

lemma word_distinct [simp]:
  "word1 \<noteq> word2" "word1 \<noteq> word3" "word1 \<noteq> word4" "word2 \<noteq> word3" "word2 \<noteq> word4"
  "word3 \<noteq> word4" "word2 \<noteq> word1" "word3 \<noteq> word1" "word4 \<noteq> word1" "word3 \<noteq> word2"
  "word4 \<noteq> word2" "word4 \<noteq> word3"
  by (simp_all add: word1_def word2_def word3_def word4_def)

lemma word_key [simp]:
  "key word1 = ''A''" "key word2 = ''B''" "key word3 = ''A''" "key word4 = ''B''"
  by (simp_all add: word1_def word2_def word3_def word4_def)

lemma word_get [simp]:
  "MembershipFeature_get ''words'' word1 = [''x'']" "MembershipFeature_get ''words'' word2 = [''x'']"
  "MembershipFeature_get ''words'' word3 = [''y'']" "MembershipFeature_get ''words'' word4 = [''y'']"
  by (simp_all add: MembershipFeature_get_def word1_def word2_def word3_def word4_def)

lemma word_order [simp]:
  "set_list by_eid [word1, word2] = [word1, word2]"
  "set_list by_eid_rev [word1, word2] = [word2, word1]"
  "set_list ord [word3, word4] = (if ord word3 \<le> ord word4 then [word3, word4] else [word4, word3])"
  by (simp_all add: set_list_def by_eid_def by_eid_rev_def word1_def word2_def)

lemma word_etp [simp]:
  "entetp [word1, word2] = Inr 1" "entetp [word2, word1] = Inr 1"
  "entetp [word3, word4] = Inr 1" "entetp [word4, word3] = Inr 1"
  by (simp_all add: entetp_def countkeys_def calcetp_def)

lemma word_entropy [simp]:
  "entropy_of [word1, word2] = 1" "entropy_of [word2, word1] = 1" "entropy_of [word3, word4] = 1"
  "entropy_of [word1, word2, word3, word4] = 1"
proof -
  have "entetp [word1, word2, word3, word4] = Inr 1"
    by (simp add: entetp_def countkeys_def calcetp_def)
  with entetp_nonempty [of "[word1, word2, word3, word4]"]
  show "entropy_of [word1, word2, word3, word4] = 1" by simp
  show "entropy_of [word1, word2] = 1" using entetp_nonempty [of "[word1, word2]"] by simp
  show "entropy_of [word2, word1] = 1" using entetp_nonempty [of "[word2, word1]"] by simp
  show "entropy_of [word3, word4] = 1" using entetp_nonempty [of "[word3, word4]"] by simp
qed

lemma word_bestkey [simp]:
  "bestkey (countkeys [word1, word2]) = Inr ''A''" "bestkey (countkeys [word2, word1]) = Inr ''B''"
  "bestkey (countkeys [word3, word4]) = Inr ''A''"
  "bestkey (countkeys [word1, word2, word3, word4]) = Inr ''A''"
  by (simp_all add: countkeys_def bestkey_def)

lemma word_dict:
  "members_dict (MembershipFeature_get ''words'') [word1, word2, word3, word4] =
     [(''x'', [word1, word2]), (''y'', [word3, word4])]"
  "members_dict (MembershipFeature_get ''words'') [word1, word2] = [(''x'', [word1, word2])]"
  "members_dict (MembershipFeature_get ''words'') [word2, word1] = [(''x'', [word2, word1])]"
  "members_dict (MembershipFeature_get ''words'') [word3, word4] = [(''y'', [word3, word4])]"
  by (simp_all add: members_dict_def set_add_def)

lemma word_split_pair:
  "split ord (MembershipFeature ''words'') [word1, word2] = Inl InvalidSplit"
  "split ord (MembershipFeature ''words'') [word2, word1] = Inl InvalidSplit"
  "split ord (MembershipFeature ''words'') [word3, word4] = Inl InvalidSplit"
  by (simp_all add: MembershipFeature_split_def word_dict)

lemma word_split_by_eid:
  "split by_eid (MembershipFeature ''words'') [word1, word2, word3, word4] =
     Inr (1, AStr ''x'', [(BBool True, [word1, word2]), (BBool False, [word3, word4])])"
  by (simp add: MembershipFeature_split_def word_dict Let_def)

lemma word_split_by_eid_rev:
  "split by_eid_rev (MembershipFeature ''words'') [word1, word2, word3, word4] =
     Inr (1, AStr ''x'', [(BBool True, [word2, word1]), (BBool False, [word3, word4])])"
  by (simp add: MembershipFeature_split_def word_dict Let_def)

lemma builder_words_simps [simp]:
  "map snd (features builder_words) = [MembershipFeature ''words'']"
  "minkeys builder_words = 1" "minetp builder_words = 1 / 10"
  by (simp_all add: builder_words_def addfeat_def)

lemma word_build_pair:
  "build ord builder_words [word1, word2] = Inr None"
  "build ord builder_words [word2, word1] = Inr None"
  "build ord builder_words [word3, word4] = Inr None"
  by (simp_all add: build_unfold word_split_pair del: split.simps)

lemma word_build_by_eid:
  "build by_eid builder_words [word1, word2, word3, word4] =
     Inr (Some (TreeBranch (MembershipFeature ''words'') (AStr ''x'') ''A''
       [(BBool True, TreeLeaf ''A''), (BBool False, TreeLeaf ''A'')]))"
  by (subst build_unfold) (simp_all add: word_split_by_eid word_build_pair del: split.simps)

lemma word_build_by_eid_rev:
  "build by_eid_rev builder_words [word1, word2, word3, word4] =
     Inr (Some (TreeBranch (MembershipFeature ''words'') (AStr ''x'') ''A''
       [(BBool True, TreeLeaf ''B''), (BBool False, TreeLeaf ''A'')]))"
  by (subst build_unfold) (simp_all add: word_split_by_eid_rev word_build_pair del: split.simps)

text \<open>
  C9, as the code has it. The tree depends on the order in which Python iterates the sets
  of entities of a membership split, and on nothing else outside its arguments: two
  iteration orders that agree on the entities give the same result. The feature of the
  branch is the one the loop over the registry selects: the first, in registry order, among
  those whose split succeeds with the minimal weighted entropy.
\<close>

theorem build_deterministic:
  "((\<forall>e \<in> set ents. ord e = ord' e) \<longrightarrow> build ord b ents = build ord' b ents) \<and>
   (build ord b ents = Inr (Some (TreeBranch f a dflt children)) \<longrightarrow>
      (\<exists>sp m. select ord (map snd (features b)) ents None = Inr (Some ((f, a, sp), m)))) \<and>
   (select ord feats ents None = Inr (Some ((f, a, sp), m)) \<longrightarrow>
      (\<exists>i < length feats. feats ! i = f \<and> split ord f ents = Inr (m, a, sp) \<and>
         (\<forall>j < length feats. \<forall>r'. split ord (feats ! j) ents = Inr r' \<longrightarrow> m \<le> fst r') \<and>
         (\<forall>j < i. \<forall>r'. split ord (feats ! j) ents = Inr r' \<longrightarrow> m < fst r')))"
proof (intro conjI impI)
  assume "\<forall>e \<in> set ents. ord e = ord' e"
  then show "build ord b ents = build ord' b ents" by (rule build_agree)
next
  assume "build ord b ents = Inr (Some (TreeBranch f a dflt children))"
  from build_Some [OF this]
  show "\<exists>sp m. select ord (map snd (features b)) ents None = Inr (Some ((f, a, sp), m))"
    by auto
next
  assume "select ord feats ents None = Inr (Some ((f, a, sp), m))"
  then show "\<exists>i < length feats. feats ! i = f \<and> split ord f ents = Inr (m, a, sp) \<and>
         (\<forall>j < length feats. \<forall>r'. split ord (feats ! j) ents = Inr r' \<longrightarrow> m \<le> fst r') \<and>
         (\<forall>j < i. \<forall>r'. split ord (feats ! j) ents = Inr r' \<longrightarrow> m < fst r')"
    by (rule select_first_minimal)
qed

lemma split_type0_ab:
  "split ord (DiscreteFeatureOne ''type'' 0) [ent_a, ent_b] =
     Inr (0, ANone, [(BStr ''block'', [ent_a]), (BStr ''line'', [ent_b])])"
  by (simp add: DiscreteFeature_split_def DiscreteFeatureOne_get_def ent_a_def ent_b_def)

theorem build_deterministic_witness:
  "by_eid ent_a = by_eid_low ent_a \<and> by_eid ent_b = by_eid_low ent_b \<and>
   by_eid word1 \<noteq> by_eid_low word1 \<and>
   build by_eid builder_type [ent_a, ent_b] = build by_eid_low builder_type [ent_a, ent_b] \<and>
   split by_eid (DiscreteFeature ''type'') [ent_a, ent_b] =
     Inr (0, ANone, [(BStr ''block'', [ent_a]), (BStr ''line'', [ent_b])]) \<and>
   split by_eid (DiscreteFeatureOne ''type'' 0) [ent_a, ent_b] =
     Inr (0, ANone, [(BStr ''block'', [ent_a]), (BStr ''line'', [ent_b])]) \<and>
   select by_eid [DiscreteFeature ''type'', DiscreteFeatureOne ''type'' 0] [ent_a, ent_b] None =
     Inr (Some ((DiscreteFeature ''type'', ANone,
       [(BStr ''block'', [ent_a]), (BStr ''line'', [ent_b])]), 0))"
proof -
  have agree: "\<forall>e \<in> set [ent_a, ent_b]. by_eid e = by_eid_low e"
    by (simp add: by_eid_def by_eid_low_def ent_a_def ent_b_def)
  have sel: "select by_eid [DiscreteFeature ''type'', DiscreteFeatureOne ''type'' 0] [ent_a, ent_b] None =
     Inr (Some ((DiscreteFeature ''type'', ANone,
       [(BStr ''block'', [ent_a]), (BStr ''line'', [ent_b])]), 0))"
    using split_type_ab [of by_eid] split_type0_ab [of by_eid] by simp
  from build_deterministic [where ents = "[ent_a, ent_b]" and ord = by_eid and ord' = by_eid_low
      and b = builder_type and feats = "[DiscreteFeature ''type'', DiscreteFeatureOne ''type'' 0]"
      and f = "DiscreteFeature ''type''" and a = ANone
      and sp = "[(BStr ''block'', [ent_a]), (BStr ''line'', [ent_b])]" and m = 0]
    agree sel split_type_ab [of by_eid] split_type0_ab [of by_eid]
  show ?thesis
    by (simp add: by_eid_def by_eid_low_def ent_a_def ent_b_def word1_def del: split.simps select.simps)
qed

theorem build_order_counterexample:
  "build by_eid builder_words [word1, word2, word3, word4] \<noteq>
   build by_eid_rev builder_words [word1, word2, word3, word4]"
  by (simp add: word_build_by_eid word_build_by_eid_rev)

section \<open>Classification with built trees\<close>

lemma built_numeric:
  assumes "build ord b ents = Inr (Some t)"
  shows "numeric_thresholds t"
  using assms
proof (induction rule: built_induct)
  case (leaf l)
  show ?case by simp
next
  case (branch f a sp m dflt children ents)
  from select_result [OF branch(1)] have s: "split ord f ents = Inr (m, a, sp)" by simp
  have "case f of QuantitativeFeature _ \<Rightarrow> (case a of AInt _ \<Rightarrow> True | _ \<Rightarrow> False) | _ \<Rightarrow> True"
  proof (cases f)
    case (QuantitativeFeature attr)
    with s have "QuantitativeFeature_split (QuantitativeFeature_get attr) ents = Inr (m, a, sp)"
      by simp
    from QuantitativeFeature_split_parts [OF this] QuantitativeFeature show ?thesis by auto
  qed simp_all
  with branch(3) show ?case by simp
qed

text \<open>
  C5, as the code has it. A leaf returns its label; a branch whose branch value is not a
  key of its children returns its default; and on a tree whose quantitative branches carry
  an integer threshold, as every tree returned by \<open>build\<close> does, classification returns a
  label for every entity.
\<close>

theorem test_never_fails:
  "(numeric_thresholds t \<longrightarrow> (\<exists>l. test t e = Inr l)) \<and>
   (build ord b ents = Inr (Some t) \<longrightarrow> numeric_thresholds t) \<and>
   test (TreeLeaf k) e = Inr k \<and>
   (ident feat a e = Inr v \<and> map_of children v = None \<longrightarrow>
      test (TreeBranch feat a dflt children) e = Inr dflt)"
  by (auto dest: test_numeric built_numeric)

theorem test_never_fails_witness:
  "numeric_thresholds (TreeBranch (DiscreteFeature ''type'') ANone ''A''
       [(BStr ''block'', TreeLeaf ''A''), (BStr ''line'', TreeLeaf ''B'')]) \<and>
   build by_eid builder_type [ent_a, ent_b] =
     Inr (Some (TreeBranch (DiscreteFeature ''type'') ANone ''A''
       [(BStr ''block'', TreeLeaf ''A''), (BStr ''line'', TreeLeaf ''B'')])) \<and>
   test (TreeBranch (DiscreteFeature ''type'') ANone ''A''
       [(BStr ''block'', TreeLeaf ''A''), (BStr ''line'', TreeLeaf ''B'')]) ent_b = Inr ''B'' \<and>
   ident (DiscreteFeature ''type'') ANone ent_n = Inr BNone \<and>
   map_of [(BStr ''block'', TreeLeaf ''A''), (BStr ''line'', TreeLeaf ''B'')] BNone = None \<and>
   test (TreeBranch (DiscreteFeature ''type'') ANone ''A''
       [(BStr ''block'', TreeLeaf ''A''), (BStr ''line'', TreeLeaf ''B'')]) ent_n = Inr ''A''"
  using test_never_fails [where t = "TreeBranch (DiscreteFeature ''type'') ANone ''A''
       [(BStr ''block'', TreeLeaf ''A''), (BStr ''line'', TreeLeaf ''B'')]"
      and e = ent_n and ord = by_eid and b = builder_type and ents = "[ent_a, ent_b]"
      and feat = "DiscreteFeature ''type''" and a = ANone and v = BNone and dflt = "''A''"
      and children = "[(BStr ''block'', TreeLeaf ''A''), (BStr ''line'', TreeLeaf ''B'')]"]
    build_type_ab [of by_eid]
  by (simp add: DiscreteFeature_get_def ent_b_def ent_n_def)

theorem test_type_error_counterexample:
  "test (TreeBranch (QuantitativeFeature ''deltaLine'') ANone ''A'' []) ent_n = Inl TypeError"
  by (simp add: QuantitativeFeature_ident_def QuantitativeFeature_get_def ent_n_def)

section \<open>The depth of the recursion\<close>

lemma foldr_max_le: "\<forall>x \<in> set xs. x \<le> n \<Longrightarrow> foldr max xs 0 \<le> (n :: nat)"
  by (induction xs) auto

lemma built_height: "build ord b ents = Inr (Some t) \<Longrightarrow> height t < length ents"
proof (induction "length ents" arbitrary: ents t rule: less_induct)
  case less
  from build_Some [OF less.prems] obtain f a sp m dflt where
    sel: "select ord (map snd (features b)) ents None = Inr (Some ((f, a, sp), m))"
    and ok: "\<forall>ves \<in> set sp. child_of ord b (snd ves) \<noteq> None"
    and t: "t = TreeBranch f a dflt (map (\<lambda>ves. (fst ves, the (child_of ord b (snd ves)))) sp)"
    by blast
  from select_result [OF sel] have s: "split ord f ents = Inr (m, a, sp)" by simp
  have two: "2 \<le> length ents"
  proof -
    from split_generic(1) [OF s] obtain ves where ves: "ves \<in> set sp" by (cases sp) auto
    with split_generic(3) [OF s] have "snd ves \<noteq> []" "length (snd ves) < length ents"
      by (auto dest: mset_proper_length)
    then show ?thesis by (cases "snd ves") auto
  qed
  have "height (the (child_of ord b (snd ves))) \<le> length ents - 2" if "ves \<in> set sp" for ves
  proof -
    from ok that obtain t' where t': "child_of ord b (snd ves) = Some t'" by auto
    from split_generic(3) [OF s] that have len: "length (snd ves) < length ents"
      by (auto dest: mset_proper_length)
    from t' have "(\<exists>l. t' = TreeLeaf l) \<or> build ord b (snd ves) = Inr (Some t')"
      by (auto simp: child_of_def split: sum.splits option.splits)
    then show ?thesis
    proof
      assume "\<exists>l. t' = TreeLeaf l"
      with t' show ?thesis by auto
    next
      assume "build ord b (snd ves) = Inr (Some t')"
      from less.hyps [OF len this] len t' show ?thesis by simp
    qed
  qed
  then have "foldr max (map (\<lambda>ves. height (the (child_of ord b (snd ves)))) sp) 0 \<le> length ents - 2"
    by (intro foldr_max_le) auto
  with two show ?case unfolding t by (simp add: comp_def)
qed

text \<open>
  C8. Whenever the split of a feature succeeds, every partition it returns is a non-empty
  proper part of the input (as a multiset of entities, hence with strictly fewer
  entities); so the partitions of the split that \<open>build\<close> selects, on which it calls
  itself, are strictly smaller than its input, and the calls of \<open>build\<close> are nested less
  deep than the input has entities.
\<close>

theorem split_parts_shrink:
  "(split ord feat ents = Inr (etp, a, parts) \<longrightarrow>
      (\<forall>ves \<in> set parts.
         snd ves \<noteq> [] \<and> mset (snd ves) \<subset># mset ents \<and> length (snd ves) < length ents)) \<and>
   (select ord feats ents None = Inr (Some ((feat, a, parts), etp)) \<longrightarrow>
      (\<forall>ves \<in> set parts. snd ves \<noteq> [] \<and> length (snd ves) < length ents)) \<and>
   (build ord b ents = Inr (Some t) \<longrightarrow> height t < length ents)"
proof (intro conjI impI)
  assume s: "split ord feat ents = Inr (etp, a, parts)"
  from split_generic(3) [OF s]
  show "\<forall>ves \<in> set parts.
         snd ves \<noteq> [] \<and> mset (snd ves) \<subset># mset ents \<and> length (snd ves) < length ents"
    by (auto dest: mset_proper_length)
next
  assume "select ord feats ents None = Inr (Some ((feat, a, parts), etp))"
  from select_result [OF this] have s: "split ord feat ents = Inr (etp, a, parts)" by simp
  from split_generic(3) [OF s]
  show "\<forall>ves \<in> set parts. snd ves \<noteq> [] \<and> length (snd ves) < length ents"
    by (auto dest: mset_proper_length)
next
  assume "build ord b ents = Inr (Some t)"
  then show "height t < length ents" by (rule built_height)
qed

theorem split_parts_shrink_witness:
  "split by_eid (DiscreteFeature ''type'') [ent_a, ent_b] =
     Inr (0, ANone, [(BStr ''block'', [ent_a]), (BStr ''line'', [ent_b])]) \<and>
   length [ent_b] < length [ent_a, ent_b] \<and> mset [ent_b] \<subset># mset [ent_a, ent_b] \<and>
   build by_eid builder_type [ent_a, ent_b] =
     Inr (Some (TreeBranch (DiscreteFeature ''type'') ANone ''A''
       [(BStr ''block'', TreeLeaf ''A''), (BStr ''line'', TreeLeaf ''B'')])) \<and>
   height (TreeBranch (DiscreteFeature ''type'') ANone ''A''
       [(BStr ''block'', TreeLeaf ''A''), (BStr ''line'', TreeLeaf ''B'')]) < length [ent_a, ent_b]"
  using split_parts_shrink [where ord = by_eid and feat = "DiscreteFeature ''type''"
      and ents = "[ent_a, ent_b]" and etp = 0 and a = ANone
      and parts = "[(BStr ''block'', [ent_a]), (BStr ''line'', [ent_b])]" and feats = "[]"
      and b = builder_type
      and t = "TreeBranch (DiscreteFeature ''type'') ANone ''A''
       [(BStr ''block'', TreeLeaf ''A''), (BStr ''line'', TreeLeaf ''B'')]"]
    split_type_ab [of by_eid] build_type_ab [of by_eid]
  by simp

end
